theory Spec2Isabelle
  imports Main "HOL-Library.Char_ord" "HOL-Library.List_Lexorder" "HOL-Library.AList"
begin

chapter \<open>arkos4clone: the provisioning scripts and the DTB selector\<close>

text \<open>
  The repository holds two shell scripts that drive operating-system utilities
  (\<^verbatim>\<open>SSH over OTG for ArkOS.sh\<close>, \<^verbatim>\<open>adckeys.sh\<close>) and one Go program
  (\<^verbatim>\<open>dtb_selector_XiFan.go\<close>). Each is embedded as HOL functions over an explicit
  model of what it talks to: the exit statuses of the utilities for the scripts, standard
  input and a file tree for the Go program.
\<close>

section \<open>Shell scripts: commands, exit statuses, the log\<close>

text \<open>
  A script only observes the utilities it runs through their exit status (and, in a few
  places, a word of output). The \<open>world\<close> answers both: \<open>exit_ok w h c\<close> says whether
  command \<open>c\<close> exits with status 0 when the commands of \<open>h\<close> have been run before it. So
  every sequence of successes and failures is some world. Commands are written as the
  script writes them, variables expanded, redirections of the output left out.

  The state of the shell is the variable \<open>RUN_LOG\<close>, the history \<open>hist\<close> of the commands
  run with their statuses, and \<open>calls\<close>, the names of the shell functions entered so far
  (a record of the control flow; the script has no such variable). \<open>RUN_LOG\<close> is kept as
  the list of the messages appended to it; \<open>RUN_LOG_text\<close> is the string the script holds.
\<close>

type_synonym cmd = string
type_synonym event = "cmd \<times> bool"

record world =
  exit_ok :: "event list \<Rightarrow> cmd \<Rightarrow> bool"
  udc_glob :: "string list"
  date_s :: string
  bg_pid :: "cmd \<Rightarrow> string"
  SCRIPT_NAME :: string

record sh =
  RUN_LOG :: "string list"
  hist :: "event list"
  calls :: "string list"

definition CURR_TTY :: string where "CURR_TTY = ''/dev/tty1''"
definition GADGET_DIR :: string where "GADGET_DIR = ''/sys/kernel/config/usb_gadget/arkos_ssh''"
definition DHCP_START :: string where "DHCP_START = ''192.168.7.100''"
definition DHCP_END :: string where "DHCP_END = ''192.168.7.200''"



definition sh_init :: sh where
  "sh_init = \<lparr>RUN_LOG = [], hist = [], calls = []\<rparr>"

definition add_run_log :: "string \<Rightarrow> sh \<Rightarrow> sh" where
  "add_run_log msg s = s\<lparr>RUN_LOG := RUN_LOG s @ [msg]\<rparr>"

definition run :: "world \<Rightarrow> cmd \<Rightarrow> sh \<Rightarrow> bool \<times> sh" where
  "run w c s = (exit_ok w (hist s) c, s\<lparr>hist := hist s @ [(c, exit_ok w (hist s) c)]\<rparr>)"

text \<open>A command whose status the script ignores (also \<^verbatim>\<open>cmd || true\<close>).\<close>

definition do_cmd :: "world \<Rightarrow> cmd \<Rightarrow> sh \<Rightarrow> sh" where
  "do_cmd w c s = snd (run w c s)"

text \<open>\<^verbatim>\<open>cmd &\<close>: the shell starts the job and goes on; the status of that is 0.\<close>

definition spawn :: "cmd \<Rightarrow> sh \<Rightarrow> sh" where
  "spawn c s = s\<lparr>hist := hist s @ [(c @ '' &'', True)]\<rparr>"

definition enter :: "string \<Rightarrow> sh \<Rightarrow> sh" where
  "enter f s = s\<lparr>calls := calls s @ [f]\<rparr>"

fun digit_char :: "nat \<Rightarrow> char" where
  "digit_char n = char_of (48 + n)"

fun string_of_nat :: "nat \<Rightarrow> string" where
  "string_of_nat n =
     (if n < 10 then [digit_char n] else string_of_nat (n div 10) @ [digit_char (n mod 10)])"

declare string_of_nat.simps [simp del]

text \<open>\<^verbatim>\<open>basename\<close> of a path: what follows its last slash.\<close>

definition basename :: "string \<Rightarrow> string" where
  "basename p = rev (takeWhile (\<lambda>c. c \<noteq> CHR ''/'') (rev p))"

subsection \<open>SSH over OTG: the functions of the script\<close>


definition safe_msgbox :: "world \<Rightarrow> string \<Rightarrow> string \<Rightarrow> string \<Rightarrow> sh \<Rightarrow> sh" where
  "safe_msgbox w msg h wd s0 =
     do_cmd w (''dialog --msgbox '' @ msg @ '' '' @ h @ '' '' @ wd @ '' > '' @ CURR_TTY)
       (enter ''safe_msgbox'' s0)"

definition cleanup_usb_gadget :: "world \<Rightarrow> sh \<Rightarrow> sh" where
  "cleanup_usb_gadget w s0 =
     (let s = enter ''cleanup_usb_gadget'' s0;
          (d, s) = run w (''[ -d '' @ GADGET_DIR @ '' ]'') s
      in if d then
           do_cmd w (''rmdir '' @ GADGET_DIR)
             (do_cmd w (''rmdir '' @ GADGET_DIR @ ''/configs/c.1 '' @ GADGET_DIR
                        @ ''/functions/rndis.usb0 '' @ GADGET_DIR @ ''/functions/ecm.usb0'')
                (do_cmd w (''rm -f '' @ GADGET_DIR @ ''/configs/c.1/rndis.usb0 '' @ GADGET_DIR
                           @ ''/configs/c.1/ecm.usb0'')
                   (do_cmd w (''echo > '' @ GADGET_DIR @ ''/UDC'') s)))
         else s)"

text \<open>
  The readiness loop of \<open>configure_usb_gadget\<close> (lines 117 to 123): \<open>retry\<close> counts the
  failed tests; the loop is left by \<^verbatim>\<open>break\<close> at the first test that succeeds, or when
  \<open>retry\<close> reaches 10.
\<close>

function wait_usb0 :: "world \<Rightarrow> nat \<Rightarrow> sh \<Rightarrow> nat \<times> sh" where
  "wait_usb0 w retry s =
     (if retry < 10 then
        (if fst (run w ''ip link show usb0'' s) then (retry, snd (run w ''ip link show usb0'' s))
         else wait_usb0 w (retry + 1)
                (do_cmd w ''sleep 2''
                   (add_run_log (''[WARNING] usb0 not ready (try '' @ string_of_nat (retry + 1) @ ''/10)'')
                      (snd (run w ''ip link show usb0'' s)))))
      else (retry, s))"
  by pat_completeness auto
termination
  by (relation "measure (\<lambda>(w, retry, s). 10 - retry)") auto

declare wait_usb0.simps [simp del]

definition detect_udc :: "world \<Rightarrow> sh \<Rightarrow> string \<times> sh" where
  "detect_udc w s0 =
     (let (d, s) = run w ''[ -d /sys/class/udc ]'' s0 in
      if d then
        (let udc = (case udc_glob w of [] \<Rightarrow> ''/sys/class/udc/*'' | p # _ \<Rightarrow> p);
             (b, s) = run w (''basename '' @ udc) s;
             udc_device = (if b then basename udc else '''')
         in (udc_device, add_run_log (''[INFO] Found UDC: '' @ udc_device) s))
      else (''ff300000.usb'', add_run_log ''[INFO] Using default UDC: ff300000.usb'' s))"

text \<open>
  \<open>configure_usb_gadget\<close> is written in the blocks its comments mark: loading the
  modules (lines 63 to 65), finding the controller (68 to 78), identifiers and strings
  (85 to 100, none of these commands is checked), the network function (103 to 110), and
  the readiness loop above.
\<close>

definition load_modules :: "world \<Rightarrow> sh \<Rightarrow> bool \<times> sh" where
  "load_modules w s =
     (let (m1, s) = run w ''modprobe libcomposite'' s
      in if \<not> m1 then (False, add_run_log ''[ERROR] Could not load libcomposite'' s) else
     (let (m2, s) = run w ''modprobe usb_f_rndis'' s
      in if \<not> m2 then (False, add_run_log ''[ERROR] Could not load rndis'' s) else
     (let (m3, s) = run w ''modprobe usb_f_ecm'' s
      in if \<not> m3 then (False, add_run_log ''[ERROR] Could not load ecm'' s)
         else (True, s))))"

definition write_gadget_ids :: "world \<Rightarrow> sh \<Rightarrow> sh" where
  "write_gadget_ids w s =
     do_cmd w ''echo 500 > configs/c.1/MaxPower''
    (do_cmd w ''echo SSH over OTG for ArkOS > configs/c.1/strings/0x409/configuration''
    (do_cmd w ''mkdir -p configs/c.1/strings/0x409''
    (do_cmd w ''echo Gaming Console > strings/0x409/product''
    (do_cmd w ''echo ArkOS Team > strings/0x409/manufacturer''
    (do_cmd w (''echo ArkOS'' @ date_s w @ '' > strings/0x409/serialnumber'')
    (do_cmd w ''date +%s''
    (do_cmd w ''mkdir -p strings/0x409''
    (do_cmd w ''echo 0x0104 > idProduct''
    (do_cmd w ''echo 0x1d6b > idVendor''
    (do_cmd w (''cd '' @ GADGET_DIR) s))))))))))"

definition select_network_function :: "world \<Rightarrow> sh \<Rightarrow> bool \<times> sh" where
  "select_network_function w s =
     (let (rndis, s) = run w ''mkdir -p functions/rndis.usb0'' s
      in if rndis then (True, do_cmd w ''ln -sf functions/rndis.usb0 configs/c.1/'' s) else
     (let (ecm, s) = run w ''mkdir -p functions/ecm.usb0'' s
      in if ecm then (True, do_cmd w ''ln -sf functions/ecm.usb0 configs/c.1/'' s)
         else (False, add_run_log ''[ERROR] Could not create USB network function'' s)))"

definition configure_usb_gadget :: "world \<Rightarrow> sh \<Rightarrow> bool \<times> sh" where
  "configure_usb_gadget w s0 =
     (let s = enter ''configure_usb_gadget'' s0;
          (m, s) = load_modules w s
      in if \<not> m then (False, s) else
     (let (udc_device, s) = detect_udc w s;
          s = cleanup_usb_gadget w s;
          (mk, s) = run w (''mkdir -p '' @ GADGET_DIR) s
      in if \<not> mk then (False, add_run_log ''[ERROR] Could not create gadget dir'' s) else
     (let s = write_gadget_ids w s;
          (fn, s) = select_network_function w s
      in if \<not> fn then (False, s) else
     (let (u, s) = run w (''echo '' @ udc_device @ '' > UDC'') s
      in if \<not> u then (False, add_run_log ''[ERROR] Could not start USB gadget'' s) else
     (let s = do_cmd w ''sleep 3'' s;
          (retry, s) = wait_usb0 w 0 s
      in if retry = 10 then (False, add_run_log ''[ERROR] usb0 not found'' s)
         else (True, s))))))"











subsection \<open>Observations on a run of the script\<close>

text \<open>The outcomes of the tests \<^verbatim>\<open>ip link show usb0\<close> in a history, oldest first.\<close>

definition usb0_tests :: "event list \<Rightarrow> bool list" where
  "usb0_tests h = map snd (filter (\<lambda>e. fst e = ''ip link show usb0'') h)"

text \<open>A world in which every command succeeds, but \<^verbatim>\<open>usb0\<close> is only there at the
  third test.\<close>

definition world_usb0_third :: world where
  "world_usb0_third =
     \<lparr>exit_ok = (\<lambda>h c. c \<noteq> ''ip link show usb0''
                     \<or> 2 \<le> length (filter (\<lambda>e. fst e = ''ip link show usb0'') h)),
      udc_glob = [''/sys/class/udc/ff300000.usb''], date_s = ''1700000000'',
      bg_pid = (\<lambda>c. ''4242''), SCRIPT_NAME = ''SSH over OTG for ArkOS.sh''\<rparr>"




text \<open>The four steps of the bring-up, and the eight messages by which \<open>main\<close> logs how
  each ended.\<close>

definition bring_up_steps :: "string list" where
  "bring_up_steps =
     [''configure_usb_gadget'', ''configure_network'', ''start_dhcp_service'', ''start_ssh_service'']"

definition steps_of :: "string list \<Rightarrow> string list" where
  "steps_of cs = filter (\<lambda>f. f \<in> set bring_up_steps) cs"

definition step_messages :: "string list" where
  "step_messages =
     [''[OK] USB Gadget configured'', ''[ERROR] USB Gadget configuration failed'',
      ''[OK] Network configured'', ''[ERROR] Network configuration failed'',
      ''[OK] DHCP service started'', ''[ERROR] DHCP service start failed'',
      ''[OK] SSH service started'', ''[ERROR] SSH service start failed'']"

definition step_results :: "string list \<Rightarrow> string list" where
  "step_results log = filter (\<lambda>m. m \<in> set step_messages) log"


text \<open>What a function leaves of the two observations: the steps entered and the
  result messages logged.\<close>

definition silent :: "sh \<Rightarrow> sh \<Rightarrow> bool" where
  "silent s s' \<longleftrightarrow> steps_of (calls s') = steps_of (calls s)
                 \<and> step_results (RUN_LOG s') = step_results (RUN_LOG s)"


section \<open>adckeys.sh: the remapping of key events\<close>

text \<open>
  \<^verbatim>\<open>[[ $s == *"pat"* ]]\<close> with a quoted pattern: \<open>pat\<close> occurs in \<open>s\<close>.
\<close>

fun str_contains :: "string \<Rightarrow> string \<Rightarrow> bool" where
  "str_contains pat [] = (pat = [])"
| "str_contains pat (c # cs) = (take (length pat) (c # cs) = pat \<or> str_contains pat cs)"

text \<open>
  The test of line 6: \<^verbatim>\<open>tr\<close> turns the NUL bytes of the model file into newlines, and the
  command substitution drops the newlines at the end.
\<close>

definition tr_nul_nl :: "string \<Rightarrow> string" where
  "tr_nul_nl s = map (\<lambda>c. if c = CHR 0x00 then CHR 0x0A else c) s"

definition cmd_subst :: "string \<Rightarrow> string" where
  "cmd_subst s = rev (dropWhile (\<lambda>c. c = CHR 0x0A) (rev s))"

definition is_d007_plus :: "string \<Rightarrow> bool" where
  "is_d007_plus model = str_contains ''D007 Plus'' (cmd_subst (tr_nul_nl model))"

text \<open>\<^verbatim>\<open>read -r line\<close>: the line without the blanks and tabs at its two ends.\<close>

definition read_r :: "string \<Rightarrow> string" where
  "read_r l =
     rev (dropWhile (\<lambda>c. c = CHR '' '' \<or> c = CHR 0x09)
       (rev (dropWhile (\<lambda>c. c = CHR '' '' \<or> c = CHR 0x09) l)))"

text \<open>
  The body of the inner loop (lines 12 to 28), for one line: the argument with which
  \<^verbatim>\<open>adckeys.py\<close> is run, if it is run.
\<close>

definition handle_line :: "string \<Rightarrow> string option" where
  "handle_line line =
     (if str_contains ''BTN_BACK'' line then
        (if str_contains ''value 1'' line then Some ''startselect'' else None)
      else if str_contains ''BTN_SELECT'' line then
        (if str_contains ''value 1'' line then Some ''select_press''
         else if str_contains ''value 0'' line then Some ''select_release'' else None)
      else if str_contains ''BTN_START'' line then
        (if str_contains ''value 1'' line then Some ''start_press''
         else if str_contains ''value 0'' line then Some ''start_release'' else None)
      else None)"

text \<open>
  The script: \<open>model\<close> is the content of \<^verbatim>\<open>/sys/firmware/devicetree/base/model\<close>, and
  \<open>runs\<close> holds, for each turn of the outer loop so far, the lines that \<^verbatim>\<open>evtest\<close> printed.
  The result lists the arguments of the runs of \<^verbatim>\<open>adckeys.py\<close>, in order. (The outer loop
  never ends; this is what the script has done after these lines. \<^verbatim>\<open>adckeys.py\<close> is taken
  not to read the standard input it shares with the loop.)
\<close>

definition adckeys :: "string \<Rightarrow> string list list \<Rightarrow> string list" where
  "adckeys model runs =
     (if is_d007_plus model
      then concat (map (\<lambda>out. List.map_filter (\<lambda>l. handle_line (read_r l)) out) runs)
      else [])"

text \<open>A line as \<^verbatim>\<open>evtest\<close> prints it for a key event.\<close>

definition evtest_key_line :: "string \<Rightarrow> string \<Rightarrow> string \<Rightarrow> string \<Rightarrow> string" where
  "evtest_key_line time code name val =
     ''Event: time '' @ time @ '', type 1 (EV_KEY), code '' @ code @ '' ('' @ name @ ''), value '' @ val"

text \<open>The time stamp and the code number of such a line are digits and dots.\<close>

definition numeric :: "string \<Rightarrow> bool" where
  "numeric s \<longleftrightarrow> set s \<subseteq> set ''0123456789.''"

section \<open>dtb_selector_XiFan.go: what the program talks to\<close>

text \<open>
  The Go program reads lines from standard input, prints messages, and reads and writes
  files below its working directory. Standard input is the string of the bytes still to be
  read; a message is a constructor of \<open>msg\<close> with the values printed in it (the texts are
  Chinese); the file tree is described below.
\<close>

datatype go_error =
    EOF | ErrSyntax | ErrRange
  | ENOENT | ENOTDIR | EISDIR
  | SourceNotDirectory | RelError

record Option_t =
  Display :: string
  Real :: string
  Logo :: string

definition XiFanOptions :: "Option_t list" where
  "XiFanOptions =
     [\<lparr>Display = ''XiFan Mymini'', Real = ''mymini'', Logo = ''logo/480P/''\<rparr>,
      \<lparr>Display = ''XiFan R36Max'', Real = ''r36max'', Logo = ''logo/720P/''\<rparr>,
      \<lparr>Display = ''XiFan R36Pro'', Real = ''r36pro'', Logo = ''logo/480P/''\<rparr>,
      \<lparr>Display = ''XiFan XF35H'', Real = ''xf35h'', Logo = ''logo/480P/''\<rparr>,
      \<lparr>Display = ''XiFan XF40H'', Real = ''xf40h'', Logo = ''logo/720P/''\<rparr>,
      \<lparr>Display = ''XiFan XF40V'', Real = ''dc40v'', Logo = ''logo/720P/''\<rparr>,
      \<lparr>Display = ''XiFan DC40V'', Real = ''dc40v'', Logo = ''logo/720P/''\<rparr>,
      \<lparr>Display = ''XiFan DC35V'', Real = ''dc35v'', Logo = ''logo/480P/''\<rparr>]"

subsection \<open>Paths and the file tree\<close>

text \<open>
  A path is the list of its components, relative to the working directory: \<open>[]\<close> is
  \<^verbatim>\<open>.\<close> itself. The tree is the list of the paths that exist, each with what is there:
  a file with its content, or a directory. The working directory always exists. (A tree
  is well formed when the parent of every path in it is a directory in it; every function
  below keeps it so. Symbolic links, permissions and a full disk are not modelled: a
  system call fails only for what is, or is not, at a path.)
\<close>

type_synonym path = "string list"

datatype node = File string | Dir

type_synonym fs = "(path \<times> node) list"

definition lookup :: "fs \<Rightarrow> path \<Rightarrow> node option" where
  "lookup t p = (if p = [] then Some Dir else map_of t p)"

text \<open>The components of a slash-separated name, as \<^verbatim>\<open>filepath.Clean\<close> leaves them (empty
  components and \<^verbatim>\<open>.\<close> dropped; the program builds no name with \<^verbatim>\<open>..\<close>).\<close>

fun split_slash :: "string \<Rightarrow> string \<Rightarrow> string list" where
  "split_slash acc [] = [rev acc]"
| "split_slash acc (c # cs) =
     (if c = CHR ''/'' then rev acc # split_slash [] cs else split_slash (c # acc) cs)"

definition path_of :: "string \<Rightarrow> path" where
  "path_of s = filter (\<lambda>c. c \<noteq> [] \<and> c \<noteq> ''.'') (split_slash [] s)"

definition Join :: "string list \<Rightarrow> path" where
  "Join elems = concat (map path_of elems)"

text \<open>\<^verbatim>\<open>filepath.Rel(base, targ)\<close> for a \<open>targ\<close> below \<open>base\<close>, the only case in which
  \<^verbatim>\<open>WalkDir\<close> lets the program call it.\<close>

definition Rel :: "path \<Rightarrow> path \<Rightarrow> go_error + path" where
  "Rel base targ =
     (if take (length base) targ = base then Inr (drop (length base) targ) else Inl RelError)"

text \<open>\<^verbatim>\<open>os.Stat\<close>: what is at the path; otherwise \<open>ENOTDIR\<close> when a file stands where
  a directory of the path should, \<open>ENOENT\<close> when nothing is there.\<close>

fun file_on_way :: "fs \<Rightarrow> path \<Rightarrow> path \<Rightarrow> bool" where
  "file_on_way t cur [] = False"
| "file_on_way t cur (c # cs) =
     (cs \<noteq> [] \<and> ((case lookup t (cur @ [c]) of Some (File d) \<Rightarrow> True | _ \<Rightarrow> False)
                 \<or> file_on_way t (cur @ [c]) cs))"

definition Stat :: "fs \<Rightarrow> path \<Rightarrow> go_error + node" where
  "Stat t p =
     (case lookup t p of
        Some n \<Rightarrow> Inr n
      | None \<Rightarrow> Inl (if file_on_way t [] p then ENOTDIR else ENOENT))"

definition IsNotExist :: "go_error + 'a \<Rightarrow> bool" where
  "IsNotExist r = (r = Inl ENOENT)"

definition IsDir :: "node \<Rightarrow> bool" where
  "IsDir n = (n = Dir)"

text \<open>\<^verbatim>\<open>os.MkdirAll\<close>: the directories of the path are made from the top, those that
  are missing; a file on the way is an error.\<close>

fun mkdir_from :: "path \<Rightarrow> path \<Rightarrow> fs \<Rightarrow> go_error + fs" where
  "mkdir_from cur [] t = Inr t"
| "mkdir_from cur (c # cs) t =
     (case lookup t (cur @ [c]) of
        None \<Rightarrow> mkdir_from (cur @ [c]) cs (AList.update (cur @ [c]) Dir t)
      | Some Dir \<Rightarrow> mkdir_from (cur @ [c]) cs t
      | Some (File d) \<Rightarrow> Inl ENOTDIR)"

definition MkdirAll :: "path \<Rightarrow> fs \<Rightarrow> go_error + fs" where
  "MkdirAll p t = mkdir_from [] p t"

text \<open>\<^verbatim>\<open>os.OpenFile\<close> with \<^verbatim>\<open>O_CREATE|O_WRONLY|O_TRUNC\<close> (and \<^verbatim>\<open>os.Create\<close>, which
  differs in the access mode only): the file is there and empty afterwards, unless the
  path is a directory or its parent is not one.\<close>

definition create_trunc :: "path \<Rightarrow> fs \<Rightarrow> go_error + fs" where
  "create_trunc p t =
     (case lookup t p of
        Some Dir \<Rightarrow> Inl EISDIR
      | Some (File d) \<Rightarrow> Inr (AList.update p (File []) t)
      | None \<Rightarrow>
          (case Stat t (butlast p) of
             Inl e \<Rightarrow> Inl e
           | Inr (File d) \<Rightarrow> Inl ENOTDIR
           | Inr Dir \<Rightarrow> Inr (AList.update p (File []) t)))"

text \<open>\<^verbatim>\<open>os.ReadDir\<close>: the entries of a directory, sorted by name, each with whether it
  is a directory.\<close>

definition ReadDir :: "fs \<Rightarrow> path \<Rightarrow> go_error + (string \<times> node) list" where
  "ReadDir t p =
     (case Stat t p of
        Inl e \<Rightarrow> Inl e
      | Inr (File d) \<Rightarrow> Inl ENOTDIR
      | Inr Dir \<Rightarrow>
          Inr (List.map_filter (\<lambda>name. map_option (Pair name) (lookup t (p @ [name])))
                 (sort (remdups (map (\<lambda>q. last q)
                    (filter (\<lambda>q. q \<noteq> [] \<and> butlast q = p) (map fst t)))))))"

text \<open>The longest path of the tree.\<close>

definition height :: "fs \<Rightarrow> nat" where
  "height t = fold max (map (\<lambda>e. length (fst e)) t) 0"

subsection \<open>The functions that copy\<close>

text \<open>
  \<open>copyFile\<close> (lines 34 to 54). \<^verbatim>\<open>os.Open\<close> succeeds on a directory too; reading from it
  then fails, after the target has been created. The source is read after the target has
  been truncated.
\<close>

definition copyFile :: "path \<Rightarrow> path \<Rightarrow> fs \<Rightarrow> go_error option \<times> fs" where
  "copyFile src dst t =
     (case Stat t src of
        Inl e \<Rightarrow> (Some e, t)
      | Inr opened \<Rightarrow>
          (case MkdirAll (butlast dst) t of
             Inl e \<Rightarrow> (Some e, t)
           | Inr t1 \<Rightarrow>
               (case create_trunc dst t1 of
                  Inl e \<Rightarrow> (Some e, t1)
                | Inr t2 \<Rightarrow>
                    (case lookup t2 src of
                       Some (File d) \<Rightarrow> (None, AList.update dst (File d) t2)
                     | _ \<Rightarrow> (Some EISDIR, t2)))))"

text \<open>The function that \<open>copyDirectory\<close> passes to \<^verbatim>\<open>WalkDir\<close> (lines 64 to 77).\<close>

definition copy_entry :: "path \<Rightarrow> path \<Rightarrow> path \<Rightarrow> node \<Rightarrow> go_error option \<Rightarrow> fs \<Rightarrow> go_error option \<times> fs" where
  "copy_entry src dst path d walkErr t =
     (case walkErr of
        Some e \<Rightarrow> (Some e, t)
      | None \<Rightarrow>
          (case Rel src path of
             Inl e \<Rightarrow> (Some e, t)
           | Inr rel \<Rightarrow>
               (let targetPath = dst @ rel in
                if IsDir d then
                  (case MkdirAll targetPath t of Inl e \<Rightarrow> (Some e, t) | Inr t' \<Rightarrow> (None, t'))
                else copyFile path targetPath t)))"

text \<open>
  \<^verbatim>\<open>filepath.WalkDir\<close>, for a function that returns no \<^verbatim>\<open>SkipDir\<close> (as \<open>copy_entry\<close>):
  the function is called on the path; for a directory its entries are then read, as they
  are at that moment, and walked in the order of their names; the first error ends the
  walk. A directory that cannot be read is reported to the function by a second call,
  whose result ends the walk (\<open>copy_entry\<close> gives back the error it is passed).
  The walk need not end for every function (one that makes a new directory in each
  directory it sees), so it is defined with fuel, one unit for each level it descends:
  \<open>None\<close> is a walk that ran out of it.
\<close>

fun walkDir :: "nat \<Rightarrow> (path \<Rightarrow> node \<Rightarrow> go_error option \<Rightarrow> fs \<Rightarrow> go_error option \<times> fs)
                  \<Rightarrow> path \<Rightarrow> node \<Rightarrow> fs \<Rightarrow> (go_error option \<times> fs) option"
  and walkEntries :: "nat \<Rightarrow> (path \<Rightarrow> node \<Rightarrow> go_error option \<Rightarrow> fs \<Rightarrow> go_error option \<times> fs)
                  \<Rightarrow> path \<Rightarrow> (string \<times> node) list \<Rightarrow> fs \<Rightarrow> (go_error option \<times> fs) option"
where
  "walkDir n fn path d t =
     (case fn path d None t of
        (Some e, t1) \<Rightarrow> Some (Some e, t1)
      | (None, t1) \<Rightarrow>
          if \<not> IsDir d then Some (None, t1)
          else (case ReadDir t1 path of
                  Inl e \<Rightarrow> Some (fn path d (Some e) t1)
                | Inr dirs \<Rightarrow> walkEntries n fn path dirs t1))"
| "walkEntries n fn path [] t = Some (None, t)"
| "walkEntries 0 fn path (d1 # dirs) t = None"
| "walkEntries (Suc n) fn path (d1 # dirs) t =
     (case walkDir n fn (path @ [fst d1]) (snd d1) t of
        None \<Rightarrow> None
      | Some (Some e, t1) \<Rightarrow> Some (Some e, t1)
      | Some (None, t1) \<Rightarrow> walkEntries (Suc n) fn path dirs t1)"

definition WalkDir :: "nat \<Rightarrow> path \<Rightarrow> (path \<Rightarrow> node \<Rightarrow> go_error option \<Rightarrow> fs \<Rightarrow> go_error option \<times> fs)
                  \<Rightarrow> fs \<Rightarrow> (go_error option \<times> fs) option" where
  "WalkDir n root fn t =
     (case Stat t root of
        Inl e \<Rightarrow> Some (fn root Dir (Some e) t)
      | Inr info \<Rightarrow> walkDir n fn root info t)"

text \<open>\<open>copyDirectory\<close> (lines 56 to 78). The fuel it gives the walk is the length of the
  longest path of the tree; that this is enough when the target is the working
  directory is proved below.\<close>

definition copyDirectory :: "path \<Rightarrow> path \<Rightarrow> fs \<Rightarrow> (go_error option \<times> fs) option" where
  "copyDirectory src dst t =
     (case Stat t src of
        Inl e \<Rightarrow> Some (Some e, t)
      | Inr info \<Rightarrow>
          if \<not> IsDir info then Some (Some SourceNotDirectory, t)
          else WalkDir (height t) src (copy_entry src dst) t)"

subsection \<open>Standard input and output\<close>

datatype msg =
    MsgBanner | MsgIntro | MsgBlank
  | MsgMenuHeader | MsgMenuItem nat string | MsgMenuQuit | MsgMenuFooter
  | MsgPromptChoice | MsgEnterNumber | MsgInvalidChoice
  | MsgError go_error | MsgQuit
  | MsgSrcNotFound path | MsgCopying string | MsgCopyFailed go_error
  | MsgCopyingLogo string | MsgLogoFailed go_error | MsgLogoSkipped path
  | MsgCNCreated | MsgCNFailed go_error
  | MsgDone string string string

record io =
  stdin :: string
  stdout :: "msg list"

definition print :: "msg \<Rightarrow> io \<Rightarrow> io" where
  "print m c = c\<lparr>stdout := stdout c @ [m]\<rparr>"

text \<open>
  \<^verbatim>\<open>ReadString('\n')\<close> of \<^verbatim>\<open>bufio.Reader\<close>: the bytes up to and with the first newline;
  when there is none, all that is left, and the error \<open>EOF\<close>.
\<close>

definition ReadString :: "io \<Rightarrow> (string \<times> go_error option) \<times> io" where
  "ReadString c =
     (if CHR 0x0A \<in> set (stdin c)
      then ((takeWhile (\<lambda>b. b \<noteq> CHR 0x0A) (stdin c) @ [CHR 0x0A], None),
            c\<lparr>stdin := tl (dropWhile (\<lambda>b. b \<noteq> CHR 0x0A) (stdin c))\<rparr>)
      else ((stdin c, Some EOF), c\<lparr>stdin := []\<rparr>))"

text \<open>
  \<^verbatim>\<open>strings.TrimSpace\<close>, \<^verbatim>\<open>strings.ToLower\<close> and \<^verbatim>\<open>strconv.Atoi\<close> on ASCII text. (On
  bytes from 128 on, Go decodes UTF-8 and asks the Unicode tables; here such a byte is no
  space and has no case, so the model is that of the program for ASCII input.)
  \<open>Atoi\<close> takes the size of \<^verbatim>\<open>int\<close> in bits, 32 or 64 by the platform; both of its
  errors are a \<^verbatim>\<open>*NumError\<close>, and the program does not look at which it is.
\<close>

definition asciiSpace :: "char \<Rightarrow> bool" where
  "asciiSpace b \<longleftrightarrow> b \<in> set [CHR 0x09, CHR 0x0A, CHR 0x0B, CHR 0x0C, CHR 0x0D, CHR '' '']"

definition TrimSpace :: "string \<Rightarrow> string" where
  "TrimSpace s = rev (dropWhile asciiSpace (rev (dropWhile asciiSpace s)))"

definition lower_byte :: "char \<Rightarrow> char" where
  "lower_byte b = (if CHR ''A'' \<le> b \<and> b \<le> CHR ''Z'' then char_of (of_char b + (32::nat)) else b)"

definition ToLower :: "string \<Rightarrow> string" where
  "ToLower s = map lower_byte s"

definition is_digit :: "char \<Rightarrow> bool" where
  "is_digit b \<longleftrightarrow> CHR ''0'' \<le> b \<and> b \<le> CHR ''9''"

definition digits_value :: "string \<Rightarrow> int" where
  "digits_value ds = foldl (\<lambda>n b. n * 10 + (int (of_char b) - 48)) 0 ds"

definition Atoi :: "nat \<Rightarrow> string \<Rightarrow> go_error + int" where
  "Atoi bits s =
     (let signed = (s \<noteq> [] \<and> (hd s = CHR ''-'' \<or> hd s = CHR ''+''));
          ds = (if signed then tl s else s)
      in if ds = [] \<or> \<not> list_all is_digit ds then Inl ErrSyntax
         else (let n = (if hd s = CHR ''-'' then - digits_value ds else digits_value ds)
               in if n < - (2 ^ (bits - 1)) \<or> 2 ^ (bits - 1) \<le> n then Inl ErrRange
                  else Inr n))"

subsection \<open>The menu\<close>

text \<open>\<open>prompt\<close> (lines 81 to 88).\<close>

definition prompt :: "msg \<Rightarrow> io \<Rightarrow> (go_error + string) \<times> io" where
  "prompt m c =
     (case ReadString (print m c) of
        ((line, Some e), c') \<Rightarrow> (Inl e, c')
      | ((line, None), c') \<Rightarrow> (Inr (TrimSpace line), c'))"

lemma prompt_consumes:
  assumes "prompt m c = (Inr resp, c')"
  shows "length (stdin c') < length (stdin c)"
proof -
  from assms have nl: "CHR 0x0A \<in> set (stdin c)"
    by (auto simp: prompt_def ReadString_def print_def split: if_splits)
  with assms have "stdin c' = tl (dropWhile (\<lambda>b. b \<noteq> CHR 0x0A) (stdin c))"
    by (auto simp: prompt_def ReadString_def print_def split: if_splits)
  moreover have "length (dropWhile (\<lambda>b. b \<noteq> CHR 0x0A) (stdin c)) \<le> length (stdin c)"
    by (rule length_dropWhile_le)
  moreover have "dropWhile (\<lambda>b. b \<noteq> CHR 0x0A) (stdin c) \<noteq> []"
    using nl by (simp add: dropWhile_eq_Nil_conv)
  ultimately show ?thesis
    by (cases "dropWhile (\<lambda>b. b \<noteq> CHR 0x0A) (stdin c)") auto
qed

text \<open>\<open>readIntChoice\<close> (lines 90 to 107). The loop goes on while the line is no
  number; each turn takes a line from the input, so it ends.\<close>

function readIntChoice :: "nat \<Rightarrow> msg \<Rightarrow> io \<Rightarrow> (go_error + int) \<times> io" where
  "readIntChoice bits m c =
     (case prompt m c of
        (Inl e, c') \<Rightarrow> (Inl e, c')
      | (Inr resp, c') \<Rightarrow>
          if ToLower resp = ''q'' \<or> ToLower resp = ''quit'' \<or> ToLower resp = ''exit''
          then (Inr 0, c')
          else (case Atoi bits resp of
                  Inl e \<Rightarrow> readIntChoice bits m (print MsgEnterNumber c')
                | Inr n \<Rightarrow> (Inr n, c')))"
  by pat_completeness auto
termination
  apply (relation "measure (\<lambda>(bits, m, c). length (stdin c))")
   apply simp
  apply (auto simp: print_def dest: prompt_consumes[OF sym])
  done

declare readIntChoice.simps [simp del]

lemma readIntChoice_consumes:
  "readIntChoice bits m c = (Inr n, c') \<Longrightarrow> length (stdin c') < length (stdin c)"
proof (induction bits m c rule: readIntChoice.induct)
  case (1 bits m c)
  obtain r c1 where p: "prompt m c = (r, c1)" by force
  show ?case
  proof (cases r)
    case (Inl e)
    with p "1.prems" show ?thesis by (simp add: readIntChoice.simps[of bits m c])
  next
    case (Inr resp)
    note c1 = prompt_consumes[OF p[unfolded Inr]]
    show ?thesis
    proof (cases "ToLower resp = ''q'' \<or> ToLower resp = ''quit'' \<or> ToLower resp = ''exit''")
      case True
      with p Inr "1.prems" c1 show ?thesis by (simp add: readIntChoice.simps[of bits m c])
    next
      case False
      show ?thesis
      proof (cases "Atoi bits resp")
        case (Inr k)
        with p \<open>r = Inr resp\<close> False "1.prems" c1 show ?thesis
          by (simp add: readIntChoice.simps[of bits m c])
      next
        case (Inl e)
        with p \<open>r = Inr resp\<close> False "1.prems"
        have "readIntChoice bits m (print MsgEnterNumber c1) = (Inr n, c')"
          by (simp add: readIntChoice.simps[of bits m c])
        with "1.IH" p \<open>r = Inr resp\<close> False Inl
        have "length (stdin c') < length (stdin (print MsgEnterNumber c1))" by auto
        with c1 show ?thesis by (simp add: print_def)
      qed
    qed
  qed
qed

text \<open>
  \<^verbatim>\<open>&XiFanOptions[i]\<close>: Go checks the index; \<open>None\<close> is the run-time panic for an index
  out of range.
\<close>

definition index_addr :: "'a list \<Rightarrow> int \<Rightarrow> nat option" where
  "index_addr xs i = (if 0 \<le> i \<and> i < int (length xs) then Some (nat i) else None)"

text \<open>
  What \<open>selectXiFan\<close> returns: an error, \<^verbatim>\<open>nil\<close>, or the pointer to an element of
  \<open>XiFanOptions\<close>, given by its index; \<open>SelPanic\<close> is Go's panic at the indexing.
\<close>

datatype selection = SelError go_error | SelNil | SelOption nat | SelPanic

text \<open>The loop of \<open>selectXiFan\<close> (lines 117 to 129).\<close>

function selectXiFan_loop :: "nat \<Rightarrow> io \<Rightarrow> selection \<times> io" where
  "selectXiFan_loop bits c =
     (case readIntChoice bits MsgPromptChoice c of
        (Inl e, c') \<Rightarrow> (SelError e, c')
      | (Inr choice, c') \<Rightarrow>
          if choice = 0 then (SelNil, c')
          else if choice > 0 \<and> choice \<le> int (length XiFanOptions)
          then (case index_addr XiFanOptions (choice - 1) of
                  Some i \<Rightarrow> (SelOption i, c')
                | None \<Rightarrow> (SelPanic, c'))
          else selectXiFan_loop bits (print MsgInvalidChoice c'))"
  by pat_completeness auto
termination
  apply (relation "measure (\<lambda>(bits, c). length (stdin c))")
   apply simp
  apply (auto simp: print_def dest: readIntChoice_consumes[OF sym])
  done

declare selectXiFan_loop.simps [simp del]

definition print_menu :: "io \<Rightarrow> io" where
  "print_menu c =
     print MsgMenuFooter (print MsgMenuQuit
       (fold (\<lambda>(i, opt). print (MsgMenuItem (i + 1) (Display opt)))
          (zip [0 ..< length XiFanOptions] XiFanOptions)
          (print MsgMenuHeader c)))"

definition selectXiFan :: "nat \<Rightarrow> io \<Rightarrow> selection \<times> io" where
  "selectXiFan bits c = selectXiFan_loop bits (print_menu c)"

subsection \<open>The main flow\<close>

text \<open>
  A run of the program ends with what it printed and left unread, with the file tree,
  and with \<open>called\<close>, the calls of \<open>copyDirectory\<close> and \<open>createCNFile\<close> it made, in
  order (a record of the control flow; the program keeps no such list).
\<close>

datatype call = CopyDirectory path path | CreateCNFile

record run =
  console :: io
  tree :: fs
  called :: "call list"

text \<open>\<open>createCNFile\<close> (lines 133 to 141).\<close>

definition createCNFile :: "io \<Rightarrow> fs \<Rightarrow> go_error option \<times> io \<times> fs" where
  "createCNFile c t =
     (case create_trunc [''.cn''] t of
        Inl e \<Rightarrow> (Some e, c, t)
      | Inr t' \<Rightarrow> (None, print MsgCNCreated c, t'))"

text \<open>Step 3 of \<open>main\<close> (lines 185 to 192).\<close>

definition finish :: "Option_t \<Rightarrow> call list \<Rightarrow> io \<Rightarrow> fs \<Rightarrow> run" where
  "finish selected cs c t =
     (case createCNFile c t of
        (Some e, c', t') \<Rightarrow>
          \<lparr>console = print (MsgCNFailed e) c', tree = t', called = cs @ [CreateCNFile]\<rparr>
      | (None, c', t') \<Rightarrow>
          \<lparr>console = print (MsgDone (Display selected) (Real selected) (Logo selected)) c',
           tree = t', called = cs @ [CreateCNFile]\<rparr>)"

text \<open>Steps 1 and 2 of \<open>main\<close> (lines 159 to 183), for the option selected.\<close>

definition install :: "Option_t \<Rightarrow> io \<Rightarrow> fs \<Rightarrow> run option" where
  "install selected c t =
     (let srcPath = Join [''consoles'', Real selected] in
      if IsNotExist (Stat t srcPath)
      then Some \<lparr>console = print (MsgSrcNotFound srcPath) c, tree = t, called = []\<rparr>
      else
        (let c = print (MsgCopying (Display selected)) c in
         case copyDirectory srcPath (path_of ''.'') t of
           None \<Rightarrow> None
         | Some (Some e, t1) \<Rightarrow>
             Some \<lparr>console = print (MsgCopyFailed e) c, tree = t1,
                   called = [CopyDirectory srcPath (path_of ''.'')]\<rparr>
         | Some (None, t1) \<Rightarrow>
             if Logo selected \<noteq> [] then
               (let logoSrc = Join [''consoles'', Logo selected] in
                case Stat t1 logoSrc of
                  Inr info \<Rightarrow>
                    (let c = print (MsgCopyingLogo (Logo selected)) c in
                     case copyDirectory logoSrc (path_of ''.'') t1 of
                       None \<Rightarrow> None
                     | Some (Some e, t2) \<Rightarrow>
                         Some \<lparr>console = print (MsgLogoFailed e) c, tree = t2,
                               called = [CopyDirectory srcPath (path_of ''.''),
                                         CopyDirectory logoSrc (path_of ''.'')]\<rparr>
                     | Some (None, t2) \<Rightarrow>
                         Some (finish selected [CopyDirectory srcPath (path_of ''.''),
                                                CopyDirectory logoSrc (path_of ''.'')] c t2))
                | Inl e \<Rightarrow>
                    Some (finish selected [CopyDirectory srcPath (path_of ''.'')]
                            (print (MsgLogoSkipped logoSrc) c) t1))
             else Some (finish selected [CopyDirectory srcPath (path_of ''.'')] c t1)))"

text \<open>\<open>main\<close> (lines 144 to 193). \<open>None\<close>: a walk ran out of fuel (it never does, see
  below).\<close>

definition main :: "nat \<Rightarrow> io \<Rightarrow> fs \<Rightarrow> run option" where
  "main bits c0 t =
     (let c = print MsgBlank (print MsgIntro (print MsgBanner c0));
          (selected, c) = selectXiFan bits c
      in case selected of
           SelError e \<Rightarrow> Some \<lparr>console = print (MsgError e) c, tree = t, called = []\<rparr>
         | SelNil \<Rightarrow> Some \<lparr>console = print MsgQuit c, tree = t, called = []\<rparr>
         | SelPanic \<Rightarrow> Some \<lparr>console = c, tree = t, called = []\<rparr>
         | SelOption i \<Rightarrow> install (XiFanOptions ! i) c t)"

subsection \<open>Notions for the properties of the program\<close>

text \<open>Every path of the tree is at most \<open>H\<close> long.\<close>

definition bounded :: "nat \<Rightarrow> fs \<Rightarrow> bool" where
  "bounded H t \<longleftrightarrow> (\<forall>p \<in> set (map fst t). length p \<le> H)"

text \<open>The answers by which the user quits, in any case of the letters.\<close>

definition is_quit :: "string \<Rightarrow> bool" where
  "is_quit resp \<longleftrightarrow> ToLower resp = ''q'' \<or> ToLower resp = ''quit'' \<or> ToLower resp = ''exit''"


text \<open>The console when the menu asks for the first time: the banner and the menu
  have been printed.\<close>

definition greeting :: "io \<Rightarrow> io" where
  "greeting c = print_menu (print MsgBlank (print MsgIntro (print MsgBanner c)))"


text \<open>The file tree after \<open>createCNFile\<close>.\<close>

definition with_cn :: "fs \<Rightarrow> fs" where
  "with_cn t = (case create_trunc [''.cn''] t of Inl e \<Rightarrow> t | Inr t' \<Rightarrow> t')"

text \<open>A small installation tree: the files of one console and one logo.\<close>

definition tree_mymini :: fs where
  "tree_mymini =
     [([''consoles''], Dir), ([''consoles'', ''mymini''], Dir),
      ([''consoles'', ''mymini'', ''boot.ini''], File ''b''),
      ([''consoles'', ''logo''], Dir), ([''consoles'', ''logo'', ''480P''], Dir),
      ([''consoles'', ''logo'', ''480P'', ''logo.bmp''], File ''L'')]"

text \<open>The user answers 1 to the menu.\<close>

definition answer_1 :: io where
  "answer_1 = \<lparr>stdin = ''1'' @ [CHR 0x0A], stdout = []\<rparr>"

text \<open>A run that ends by reporting that the source is missing or that a copy failed
  (the messages of lines 162, 167 and 177; each is the last thing such a run prints).\<close>

definition reports_copy_error :: "run \<Rightarrow> bool" where
  "reports_copy_error r =
     (case last (stdout (console r)) of
        MsgSrcNotFound p \<Rightarrow> True
      | MsgCopyFailed e \<Rightarrow> True
      | MsgLogoFailed e \<Rightarrow> True
      | _ \<Rightarrow> False)"

text \<open>A tree in which the directory of the console holds a file named \<^verbatim>\<open>.cn\<close>, and
  the logo is a file where a directory should be.\<close>

definition tree_cn_inside :: fs where
  "tree_cn_inside =
     [([''consoles''], Dir), ([''consoles'', ''mymini''], Dir),
      ([''consoles'', ''mymini'', ''.cn''], File ''x''),
      ([''consoles'', ''logo''], Dir), ([''consoles'', ''logo'', ''480P''], File ''y'')]"

text \<open>The small installation tree in a working directory where \<^verbatim>\<open>logo.bmp\<close> is a
  directory, so that the file of that name cannot be copied.\<close>

definition tree_conflict :: fs where
  "tree_conflict = ([''logo.bmp''], Dir) # tree_mymini"

chapter \<open>Properties\<close>

section \<open>SSH over OTG: the readiness loop\<close>

lemmas sh_defs = configure_usb_gadget_def load_modules_def detect_udc_def cleanup_usb_gadget_def
  write_gadget_ids_def select_network_function_def Let_def run_def do_cmd_def enter_def
  add_run_log_def spawn_def sh_init_def GADGET_DIR_def basename_def

lemma usb0_tests_append [simp]: "usb0_tests (a @ b) = usb0_tests a @ usb0_tests b"
  by (simp add: usb0_tests_def)

lemma usb0_tests_Cons [simp]:
  "usb0_tests ((c, b) # es) = (if c = ''ip link show usb0'' then b # usb0_tests es else usb0_tests es)"
  by (simp add: usb0_tests_def)

lemma usb0_tests_Nil [simp]: "usb0_tests [] = []"
  by (simp add: usb0_tests_def)

lemma hist_add_run_log [simp]: "hist (add_run_log m s) = hist s"
  by (simp add: add_run_log_def)
lemma hist_enter [simp]: "hist (enter f s) = hist s"
  by (simp add: enter_def)
lemma hist_run: "hist (snd (run w c s)) = hist s @ [(c, exit_ok w (hist s) c)]"
  by (simp add: run_def)
lemma fst_run: "fst (run w c s) = exit_ok w (hist s) c"
  by (simp add: run_def)

lemma run_D:
  "run w c s = (b, s') \<Longrightarrow>
     hist s' = hist s @ [(c, b)] \<and> RUN_LOG s' = RUN_LOG s \<and> calls s' = calls s"
  by (auto simp: run_def)

lemma tests_do_cmd:
  "c \<noteq> ''ip link show usb0'' \<Longrightarrow> usb0_tests (hist (do_cmd w c s)) = usb0_tests (hist s)"
  by (simp add: do_cmd_def run_def)

lemma tests_spawn [simp]: "usb0_tests (hist (spawn c s)) = usb0_tests (hist s)"
proof -
  have "c @ '' &'' \<noteq> ''ip link show usb0''"
  proof
    assume "c @ '' &'' = ''ip link show usb0''"
    then have "last (c @ '' &'') = last ''ip link show usb0''" by simp
    then show False by simp
  qed
  then show ?thesis by (simp add: spawn_def)
qed

lemma tests_cleanup [simp]: "usb0_tests (hist (cleanup_usb_gadget w s)) = usb0_tests (hist s)"
  by (auto simp: cleanup_usb_gadget_def Let_def GADGET_DIR_def tests_do_cmd
      split: prod.splits dest!: run_D)

lemma tests_write_ids [simp]: "usb0_tests (hist (write_gadget_ids w s)) = usb0_tests (hist s)"
  by (simp add: write_gadget_ids_def tests_do_cmd GADGET_DIR_def)

lemma tests_detect_udc:
  "detect_udc w s = (u, s') \<Longrightarrow> usb0_tests (hist s') = usb0_tests (hist s)"
  by (auto simp: detect_udc_def Let_def split: prod.splits list.splits if_splits dest!: run_D)

lemma tests_load_modules:
  "load_modules w s = (m, s') \<Longrightarrow> usb0_tests (hist s') = usb0_tests (hist s)"
  by (auto simp: load_modules_def Let_def split: prod.splits if_splits dest!: run_D)

lemma tests_select_network_function:
  "select_network_function w s = (m, s') \<Longrightarrow> usb0_tests (hist s') = usb0_tests (hist s)"
  by (auto simp: select_network_function_def Let_def tests_do_cmd split: prod.splits if_splits dest!: run_D)

lemma wait_usb0_spec:
  "retry \<le> 10 \<Longrightarrow>
   \<exists>ts. usb0_tests (hist (snd (wait_usb0 w retry s))) = usb0_tests (hist s) @ ts
      \<and> length ts \<le> 10 - retry
      \<and> True \<notin> set (butlast ts)
      \<and> fst (wait_usb0 w retry s) = retry + length (filter Not ts)
      \<and> (fst (wait_usb0 w retry s) < 10 \<longrightarrow>
            True \<in> set ts \<and> last (hist (snd (wait_usb0 w retry s))) = (''ip link show usb0'', True))"
proof (induction w retry s rule: wait_usb0.induct)
  case (1 w retry s)
  show ?case
  proof (cases "retry < 10")
    case False
    then have "wait_usb0 w retry s = (retry, s)" by (subst wait_usb0.simps) simp
    with False 1(2) show ?thesis by simp
  next
    case lt: True
    obtain b s1 where r: "run w ''ip link show usb0'' s = (b, s1)" by force
    note d = run_D[OF r]
    show ?thesis
    proof (cases b)
      case True
      with lt r have "wait_usb0 w retry s = (retry, s1)"
        by (subst wait_usb0.simps) simp
      with lt True d show ?thesis by simp
    next
      case False
      let ?s2 = "do_cmd w ''sleep 2''
                   (add_run_log (''[WARNING] usb0 not ready (try '' @ string_of_nat (retry + 1) @ ''/10)'') s1)"
      from lt False r have eq: "wait_usb0 w retry s = wait_usb0 w (retry + 1) ?s2"
        by (subst wait_usb0.simps) simp
      have t2: "usb0_tests (hist ?s2) = usb0_tests (hist s) @ [False]"
        using d False by (simp add: tests_do_cmd)
      from lt have "retry + 1 \<le> 10" by simp
      with 1(1)[OF lt] r False obtain ts where
        ts: "usb0_tests (hist (snd (wait_usb0 w (retry + 1) ?s2))) = usb0_tests (hist ?s2) @ ts"
          "length ts \<le> 10 - (retry + 1)"
          "True \<notin> set (butlast ts)"
          "fst (wait_usb0 w (retry + 1) ?s2) = retry + 1 + length (filter Not ts)"
          "fst (wait_usb0 w (retry + 1) ?s2) < 10 \<longrightarrow>
             True \<in> set ts \<and> last (hist (snd (wait_usb0 w (retry + 1) ?s2))) = (''ip link show usb0'', True)"
        by auto
      show ?thesis
        apply (rule exI[of _ "False # ts"])
        unfolding eq using ts t2 lt by (auto simp: butlast_def split: if_splits)
    qed
  qed
qed

lemma filter_length_all:
  "length (filter P xs) = length xs \<Longrightarrow> x \<in> set xs \<Longrightarrow> P x"
proof (induction xs)
  case Nil
  then show ?case by simp
next
  case (Cons a xs)
  have le: "length (filter P xs) \<le> length xs" by simp
  show ?case
  proof (cases "P a")
    case True
    with Cons show ?thesis by auto
  next
    case False
    with Cons.prems(1) le show ?thesis by simp
  qed
qed

lemma wait_usb0_D:
  assumes "wait_usb0 w 0 s = (r, s')"
  shows "\<exists>ts. usb0_tests (hist s') = usb0_tests (hist s) @ ts \<and> length ts \<le> 10
      \<and> True \<notin> set (butlast ts)
      \<and> (r = 10 \<longrightarrow> length ts = 10 \<and> True \<notin> set ts)
      \<and> (r \<noteq> 10 \<longrightarrow> True \<in> set ts \<and> last (hist s') = (''ip link show usb0'', True))"
proof -
  from wait_usb0_spec[of 0 w s] assms obtain ts where
    ts: "usb0_tests (hist s') = usb0_tests (hist s) @ ts" "length ts \<le> 10"
        "True \<notin> set (butlast ts)" "r = length (filter Not ts)"
        "r < 10 \<longrightarrow> True \<in> set ts \<and> last (hist s') = (''ip link show usb0'', True)"
    by auto
  have le: "length (filter Not ts) \<le> length ts" by simp
  have "r = 10 \<longrightarrow> length ts = 10 \<and> True \<notin> set ts"
  proof
    assume "r = 10"
    with ts le have l: "length ts = 10" "length (filter Not ts) = length ts" by auto
    from l(2) have "True \<notin> set ts" using filter_length_all[of Not ts True] by auto
    with l show "length ts = 10 \<and> True \<notin> set ts" by simp
  qed
  moreover have "r \<le> 10" using ts(2,4) le by linarith
  ultimately show ?thesis using ts by (intro exI[of _ ts]) auto
qed

text \<open>
  C3. Within one call of \<open>configure_usb_gadget\<close> the test for \<^verbatim>\<open>usb0\<close> is made at most
  10 times; no test follows one that succeeded, and the function then returns success at
  once (the successful test is the last command it ran); it returns success only so; and
  when it gives up (no test succeeded, but some were made) it has made all 10 and returns
  failure. \<open>ts\<close> are the outcomes of the tests of this call.
\<close>

theorem usb0_polling_bounded:
  "\<exists>ts. usb0_tests (hist (snd (configure_usb_gadget w s))) = usb0_tests (hist s) @ ts
     \<and> length ts \<le> 10
     \<and> True \<notin> set (butlast ts)
     \<and> (True \<in> set ts \<longrightarrow>
           fst (configure_usb_gadget w s)
           \<and> last (hist (snd (configure_usb_gadget w s))) = (''ip link show usb0'', True))
     \<and> (length ts = 10 \<and> True \<notin> set ts \<longrightarrow> \<not> fst (configure_usb_gadget w s))
     \<and> (fst (configure_usb_gadget w s) \<longrightarrow> True \<in> set ts)
     \<and> (length ts = 0 \<or> length ts = 10 \<or> True \<in> set ts)"
proof -
  let ?r = "configure_usb_gadget w s"
  have early: ?thesis
    if "fst ?r = False" "usb0_tests (hist (snd ?r)) = usb0_tests (hist s)"
    using that by (intro exI[of _ "[]"]) simp
  obtain m s1 where a: "load_modules w (enter ''configure_usb_gadget'' s) = (m, s1)" by force
  have t1: "usb0_tests (hist s1) = usb0_tests (hist s)"
    using tests_load_modules[OF a] by simp
  obtain udc s2 where b: "detect_udc w s1 = (udc, s2)" by force
  have t2: "usb0_tests (hist s2) = usb0_tests (hist s)"
    using tests_detect_udc[OF b] t1 by simp
  obtain mk s3 where c: "run w (''mkdir -p '' @ GADGET_DIR) (cleanup_usb_gadget w s2) = (mk, s3)"
    by force
  have t3: "usb0_tests (hist s3) = usb0_tests (hist s)"
    using run_D[OF c] t2 by (simp add: GADGET_DIR_def)
  obtain fn s4 where d: "select_network_function w (write_gadget_ids w s3) = (fn, s4)" by force
  have t4: "usb0_tests (hist s4) = usb0_tests (hist s)"
    using tests_select_network_function[OF d] t3 by simp
  obtain u s5 where e: "run w (''echo '' @ udc @ '' > UDC'') s4 = (u, s5)" by force
  have t5: "usb0_tests (hist s5) = usb0_tests (hist s)"
    using run_D[OF e] t4 by simp
  obtain retry s6 where f: "wait_usb0 w 0 (do_cmd w ''sleep 3'' s5) = (retry, s6)" by force
  have t5': "usb0_tests (hist (do_cmd w ''sleep 3'' s5)) = usb0_tests (hist s)"
    using t5 by (simp add: tests_do_cmd)
  from wait_usb0_D[OF f] t5' obtain ts where
    ts: "usb0_tests (hist s6) = usb0_tests (hist s) @ ts" "length ts \<le> 10"
        "True \<notin> set (butlast ts)"
        "retry = 10 \<longrightarrow> length ts = 10 \<and> True \<notin> set ts"
        "retry \<noteq> 10 \<longrightarrow> True \<in> set ts \<and> last (hist s6) = (''ip link show usb0'', True)"
    by auto
  consider "\<not> m" | "m" "\<not> mk" | "m" "mk" "\<not> fn" | "m" "mk" "fn" "\<not> u" | "m" "mk" "fn" "u"
    by blast
  then show ?thesis
  proof cases
    case 1
    with a have "?r = (False, s1)" by (simp add: configure_usb_gadget_def)
    with t1 show ?thesis by (intro early) simp_all
  next
    case 2
    with a b c have "?r = (False, add_run_log ''[ERROR] Could not create gadget dir'' s3)"
      by (simp add: configure_usb_gadget_def)
    with t3 show ?thesis by (intro early) simp_all
  next
    case 3
    with a b c d have "?r = (False, s4)" by (simp add: configure_usb_gadget_def)
    with t4 show ?thesis by (intro early) simp_all
  next
    case 4
    with a b c d e have "?r = (False, add_run_log ''[ERROR] Could not start USB gadget'' s5)"
      by (simp add: configure_usb_gadget_def)
    with t5 show ?thesis by (intro early) simp_all
  next
    case 5
    with a b c d e f have
      "?r = (if retry = 10 then (False, add_run_log ''[ERROR] usb0 not found'' s6) else (True, s6))"
      by (simp add: configure_usb_gadget_def)
    with ts show ?thesis by (intro exI[of _ ts]) auto
  qed
qed


theorem usb0_polling_bounded_witness:
  "usb0_tests (hist (snd (configure_usb_gadget world_usb0_third sh_init))) = [False, False, True]
   \<and> fst (configure_usb_gadget world_usb0_third sh_init)
   \<and> last (hist (snd (configure_usb_gadget world_usb0_third sh_init))) = (''ip link show usb0'', True)"
proof -
  have ev: "usb0_tests (hist (snd (configure_usb_gadget world_usb0_third sh_init))) = [False, False, True]"
    by (simp add: sh_defs world_usb0_third_def wait_usb0.simps usb0_tests_def)
  have h0: "usb0_tests (hist sh_init) = []" by (simp add: sh_init_def)
  from usb0_polling_bounded[of world_usb0_third sh_init] ev h0 show ?thesis by auto
qed

section \<open>SSH over OTG: configure_network\<close>





section \<open>SSH over OTG: the order of the bring-up\<close>

lemma steps_of_append [simp]: "steps_of (a @ b) = steps_of a @ steps_of b"
  by (simp add: steps_of_def)
lemma step_results_append [simp]: "step_results (a @ b) = step_results a @ step_results b"
  by (simp add: step_results_def)
lemma steps_of_Nil [simp]: "steps_of [] = []"
  by (simp add: steps_of_def)
lemma step_results_Nil [simp]: "step_results [] = []"
  by (simp add: step_results_def)
lemma steps_of_Cons [simp]:
  "steps_of (f # fs) = (if f \<in> set bring_up_steps then f # steps_of fs else steps_of fs)"
  by (simp add: steps_of_def)
lemma step_results_Cons [simp]:
  "step_results (m # ms) = (if m \<in> set step_messages then m # step_results ms else step_results ms)"
  by (simp add: step_results_def)

lemma calls_add_run_log [simp]: "calls (add_run_log m s) = calls s"
  by (simp add: add_run_log_def)
lemma RUN_LOG_add_run_log [simp]: "RUN_LOG (add_run_log m s) = RUN_LOG s @ [m]"
  by (simp add: add_run_log_def)
lemma calls_enter [simp]: "calls (enter f s) = calls s @ [f]"
  by (simp add: enter_def)
lemma RUN_LOG_enter [simp]: "RUN_LOG (enter f s) = RUN_LOG s"
  by (simp add: enter_def)
lemma calls_do_cmd [simp]: "calls (do_cmd w c s) = calls s"
  by (simp add: do_cmd_def run_def)
lemma RUN_LOG_do_cmd [simp]: "RUN_LOG (do_cmd w c s) = RUN_LOG s"
  by (simp add: do_cmd_def run_def)
lemma calls_spawn [simp]: "calls (spawn c s) = calls s"
  by (simp add: spawn_def)
lemma RUN_LOG_spawn [simp]: "RUN_LOG (spawn c s) = RUN_LOG s"
  by (simp add: spawn_def)
lemma calls_run [simp]: "calls (snd (run w c s)) = calls s"
  by (simp add: run_def)
lemma RUN_LOG_run [simp]: "RUN_LOG (snd (run w c s)) = RUN_LOG s"
  by (simp add: run_def)

lemma silent_refl [simp]: "silent s s"
  by (simp add: silent_def)
lemma silent_log:
  "m \<notin> set step_messages \<Longrightarrow> silent s (add_run_log m s)"
  by (simp add: silent_def)


lemmas silent_simps = silent_def step_messages_def bring_up_steps_def Let_def












lemma silent_safe_msgbox [simp]: "silent s (safe_msgbox w m h wd s)"
  by (simp add: safe_msgbox_def silent_simps)












section \<open>adckeys.sh: which lines run adckeys.py\<close>

lemma str_contains_iff: "str_contains p s \<longleftrightarrow> (\<exists>a b. s = a @ p @ b)"
proof (induction s)
  case Nil
  show ?case by auto
next
  case (Cons c cs)
  show ?case
  proof
    assume "str_contains p (c # cs)"
    then consider "take (length p) (c # cs) = p" | "str_contains p cs" by auto
    then show "\<exists>a b. c # cs = a @ p @ b"
    proof cases
      case 1
      then have "c # cs = [] @ p @ drop (length p) (c # cs)"
        by (metis append_Nil append_take_drop_id)
      then show ?thesis by blast
    next
      case 2
      with Cons obtain a b where "cs = a @ p @ b" by blast
      then have "c # cs = (c # a) @ p @ b" by simp
      then show ?thesis by blast
    qed
  next
    assume "\<exists>a b. c # cs = a @ p @ b"
    then obtain a b where ab: "c # cs = a @ p @ b" by blast
    show "str_contains p (c # cs)"
    proof (cases a)
      case Nil
      with ab have "take (length p) (c # cs) = p" by simp
      then show ?thesis by simp
    next
      case (Cons x a')
      with ab have "cs = a' @ p @ b" by simp
      with Cons.IH show ?thesis by auto
    qed
  qed
qed

lemma str_contains_snoc:
  assumes "p \<noteq> []" "last p \<noteq> x"
  shows "str_contains p (s @ [x]) \<longleftrightarrow> str_contains p s"
proof
  assume "str_contains p (s @ [x])"
  then obtain a b where ab: "s @ [x] = a @ p @ b" unfolding str_contains_iff by blast
  show "str_contains p s"
  proof (cases b rule: rev_cases)
    case Nil
    with ab assms have "last (s @ [x]) = last p" by simp
    with assms show ?thesis by simp
  next
    case (snoc b' y)
    with ab have "s = a @ p @ b'" by (metis append_assoc butlast_snoc)
    then show ?thesis unfolding str_contains_iff by blast
  qed
next
  assume "str_contains p s"
  then obtain a b where "s = a @ p @ b" unfolding str_contains_iff by blast
  then have "s @ [x] = a @ p @ (b @ [x])" by simp
  then show "str_contains p (s @ [x])" unfolding str_contains_iff by blast
qed

lemma str_contains_Cons:
  assumes "p \<noteq> []" "hd p \<noteq> x"
  shows "str_contains p (x # s) \<longleftrightarrow> str_contains p s"
proof -
  have "take (length p) (x # s) \<noteq> p"
    using assms by (cases p) auto
  then show ?thesis by simp
qed

lemma str_contains_dropWhile:
  assumes "p \<noteq> []" "\<not> P (hd p)"
  shows "str_contains p (dropWhile P s) \<longleftrightarrow> str_contains p s"
proof (induction s)
  case Nil
  show ?case by simp
next
  case (Cons x s)
  show ?case
  proof (cases "P x")
    case True
    with assms have "hd p \<noteq> x" by auto
    from str_contains_Cons[OF assms(1) this] True Cons show ?thesis by simp
  next
    case False
    then show ?thesis by simp
  qed
qed

lemma str_contains_rev_dropWhile:
  assumes "p \<noteq> []" "\<not> P (last p)"
  shows "str_contains p (rev (dropWhile P (rev s))) \<longleftrightarrow> str_contains p s"
proof (induction s rule: rev_induct)
  case Nil
  show ?case by simp
next
  case (snoc x s)
  show ?case
  proof (cases "P x")
    case True
    with assms have "last p \<noteq> x" by auto
    from str_contains_snoc[OF assms(1) this] True snoc show ?thesis by simp
  next
    case False
    then show ?thesis by simp
  qed
qed

lemma str_contains_read_r:
  assumes "p \<noteq> []" "hd p \<noteq> CHR '' ''" "hd p \<noteq> CHR 0x09" "last p \<noteq> CHR '' ''" "last p \<noteq> CHR 0x09"
  shows "str_contains p (read_r l) \<longleftrightarrow> str_contains p l"
  unfolding read_r_def using assms
  by (simp add: str_contains_rev_dropWhile str_contains_dropWhile)

lemma handle_line_read_r: "handle_line (read_r l) = handle_line l"
  by (simp add: handle_line_def str_contains_read_r)

lemma map_eq_pattern:
  assumes "\<And>c. c \<in> set p \<or> f c \<in> set p \<Longrightarrow> f c = c"
  shows "map f w = p \<longleftrightarrow> w = p"
  using assms
proof (induction w arbitrary: p)
  case Nil
  show ?case by auto
next
  case (Cons x w)
  show ?case
  proof (cases p)
    case Nil
    then show ?thesis by simp
  next
    case (Cons y q)
    have "map f w = q \<longleftrightarrow> w = q" using Cons.prems Cons by (intro Cons.IH) auto
    moreover have "f x = y \<longleftrightarrow> x = y" using Cons.prems[of x] Cons.prems[of y] Cons by auto
    ultimately show ?thesis using Cons by auto
  qed
qed

lemma str_contains_map:
  assumes "\<And>c. c \<in> set p \<or> f c \<in> set p \<Longrightarrow> f c = c"
  shows "str_contains p (map f s) \<longleftrightarrow> str_contains p s"
proof (induction s)
  case Nil
  show ?case by simp
next
  case (Cons x s)
  have "map f (take (length p) (x # s)) = p \<longleftrightarrow> take (length p) (x # s) = p"
    by (rule map_eq_pattern) (rule assms)
  then have "take (length p) (map f (x # s)) = p \<longleftrightarrow> take (length p) (x # s) = p"
    by (simp only: take_map)
  with Cons show ?case by simp
qed

lemma is_d007_plus_iff: "is_d007_plus model \<longleftrightarrow> str_contains ''D007 Plus'' model"
proof -
  have "str_contains ''D007 Plus'' (tr_nul_nl model) \<longleftrightarrow> str_contains ''D007 Plus'' model"
    unfolding tr_nul_nl_def by (rule str_contains_map) auto
  then show ?thesis
    by (simp add: is_d007_plus_def cmd_subst_def str_contains_rev_dropWhile)
qed


lemma adckeys_eq:
  "adckeys model runs =
     (if str_contains ''D007 Plus'' model then concat (map (List.map_filter handle_line) runs) else [])"
  by (simp add: adckeys_def is_d007_plus_iff handle_line_read_r)

lemma str_contains_skip:
  assumes "p \<noteq> []" "hd p \<notin> set t"
  shows "str_contains p (t @ rest) \<longleftrightarrow> str_contains p rest"
  using assms(2)
proof (induction t)
  case Nil
  show ?case by simp
next
  case (Cons x t)
  then have "hd p \<noteq> x" by auto
  from str_contains_Cons[OF assms(1) this, of "t @ rest"] Cons show ?case
    by (simp del: str_contains.simps)
qed

lemma str_contains_split:
  assumes "x \<notin> set p"
  shows "str_contains p (a @ x # b) \<longleftrightarrow> str_contains p a \<or> str_contains p b"
proof
  assume "str_contains p (a @ x # b)"
  then obtain u v where uv: "a @ x # b = u @ p @ v" unfolding str_contains_iff by blast
  show "str_contains p a \<or> str_contains p b"
  proof (cases "length (u @ p) \<le> length a")
    case True
    from uv have "take (length a) (a @ x # b) = take (length a) (u @ p @ v)" by simp
    with True have "a = u @ p @ take (length a - length (u @ p)) v" by simp
    then show ?thesis unfolding str_contains_iff by blast
  next
    case False
    have "length a < length u"
    proof (rule ccontr)
      assume "\<not> length a < length u"
      with False have i: "length u \<le> length a" "length a - length u < length p" by auto
      have "(a @ x # b) ! length a = x" by simp
      with uv have "(u @ p @ v) ! length a = x" by simp
      with i have "p ! (length a - length u) = x" by (simp add: nth_append)
      with i(2) assms show False by (metis nth_mem)
    qed
    from uv have "drop (Suc (length a)) (a @ x # b) = drop (Suc (length a)) (u @ p @ v)" by simp
    with \<open>length a < length u\<close> have "b = drop (Suc (length a)) u @ p @ v" by simp
    then show ?thesis unfolding str_contains_iff by blast
  qed
next
  assume "str_contains p a \<or> str_contains p b"
  then show "str_contains p (a @ x # b)"
  proof
    assume "str_contains p a"
    then obtain u v where "a = u @ p @ v" unfolding str_contains_iff by blast
    then have "a @ x # b = u @ p @ (v @ x # b)" by simp
    then show ?thesis unfolding str_contains_iff by blast
  next
    assume "str_contains p b"
    then obtain u v where "b = u @ p @ v" unfolding str_contains_iff by blast
    then have "a @ x # b = (a @ x # u) @ p @ v" by simp
    then show ?thesis unfolding str_contains_iff by blast
  qed
qed

lemma handle_line_cases:
  "handle_line l =
     (if str_contains ''BTN_BACK'' l then
        (if str_contains ''value 1'' l then Some ''startselect'' else None)
      else if str_contains ''BTN_SELECT'' l then
        (if str_contains ''value 1'' l then Some ''select_press''
         else if str_contains ''value 0'' l then Some ''select_release'' else None)
      else if str_contains ''BTN_START'' l then
        (if str_contains ''value 1'' l then Some ''start_press''
         else if str_contains ''value 0'' l then Some ''start_release'' else None)
      else None)"
  by (simp add: handle_line_def)

lemma evtest_contains:
  assumes "numeric time" "numeric code"
  shows "str_contains ''BTN_BACK'' (evtest_key_line time code name val)
           \<longleftrightarrow> str_contains ''BTN_BACK'' name \<or> str_contains ''BTN_BACK'' val"
    and "str_contains ''BTN_SELECT'' (evtest_key_line time code name val)
           \<longleftrightarrow> str_contains ''BTN_SELECT'' name \<or> str_contains ''BTN_SELECT'' val"
    and "str_contains ''BTN_START'' (evtest_key_line time code name val)
           \<longleftrightarrow> str_contains ''BTN_START'' name \<or> str_contains ''BTN_START'' val"
    and "str_contains ''value 1'' (evtest_key_line time code name val)
           \<longleftrightarrow> str_contains ''value 1'' name \<or> str_contains ''value 1'' ('' value '' @ val)"
    and "str_contains ''value 0'' (evtest_key_line time code name val)
           \<longleftrightarrow> str_contains ''value 0'' name \<or> str_contains ''value 0'' ('' value '' @ val)"
proof -
  have n: "CHR ''B'' \<notin> set time" "CHR ''B'' \<notin> set code" "CHR ''v'' \<notin> set time" "CHR ''v'' \<notin> set code"
    using assms by (auto simp: numeric_def)
  have sk: "\<And>p rest. p \<noteq> [] \<Longrightarrow> hd p \<notin> set time \<Longrightarrow> str_contains p (time @ rest) = str_contains p rest"
    "\<And>p rest. p \<noteq> [] \<Longrightarrow> hd p \<notin> set code \<Longrightarrow> str_contains p (code @ rest) = str_contains p rest"
    by (rule str_contains_skip; assumption)+
  have sp: "\<And>p rest. CHR '')'' \<notin> set p \<Longrightarrow>
      str_contains p (name @ CHR '')'' # rest) = (str_contains p name \<or> str_contains p rest)"
    by (rule str_contains_split)
  show "str_contains ''BTN_BACK'' (evtest_key_line time code name val)
           \<longleftrightarrow> str_contains ''BTN_BACK'' name \<or> str_contains ''BTN_BACK'' val"
    using n by (simp add: evtest_key_line_def sk sp)
  show "str_contains ''BTN_SELECT'' (evtest_key_line time code name val)
           \<longleftrightarrow> str_contains ''BTN_SELECT'' name \<or> str_contains ''BTN_SELECT'' val"
    using n by (simp add: evtest_key_line_def sk sp)
  show "str_contains ''BTN_START'' (evtest_key_line time code name val)
           \<longleftrightarrow> str_contains ''BTN_START'' name \<or> str_contains ''BTN_START'' val"
    using n by (simp add: evtest_key_line_def sk sp)
  show "str_contains ''value 1'' (evtest_key_line time code name val)
           \<longleftrightarrow> str_contains ''value 1'' name \<or> str_contains ''value 1'' ('' value '' @ val)"
    using n by (simp add: evtest_key_line_def sk sp)
  show "str_contains ''value 0'' (evtest_key_line time code name val)
           \<longleftrightarrow> str_contains ''value 0'' name \<or> str_contains ''value 0'' ('' value '' @ val)"
    using n by (simp add: evtest_key_line_def sk sp)
qed


text \<open>
  C5. The script does something only when the model text contains \<^verbatim>\<open>D007 Plus\<close>; then
  it handles the lines in the order they are read, each by \<open>handle_line\<close>. On the event
  lines of \<^verbatim>\<open>evtest\<close> for the three keys, \<open>handle_line\<close> runs \<^verbatim>\<open>adckeys.py\<close> with the
  argument the claim lists. And whenever a line, of any form, makes it run \<^verbatim>\<open>adckeys.py\<close>,
  the line names the key and carries the value listed for that argument: every other
  line runs nothing.
\<close>

theorem adckeys_dispatch:
  assumes "numeric time" and "numeric code"
  shows "adckeys model runs =
           (if str_contains ''D007 Plus'' model
            then concat (map (List.map_filter handle_line) runs) else [])
     \<and> handle_line (evtest_key_line time code ''BTN_BACK'' ''1'') = Some ''startselect''
     \<and> handle_line (evtest_key_line time code ''BTN_SELECT'' ''1'') = Some ''select_press''
     \<and> handle_line (evtest_key_line time code ''BTN_SELECT'' ''0'') = Some ''select_release''
     \<and> handle_line (evtest_key_line time code ''BTN_START'' ''1'') = Some ''start_press''
     \<and> handle_line (evtest_key_line time code ''BTN_START'' ''0'') = Some ''start_release''
     \<and> (handle_line l = Some a \<longrightarrow>
           (a = ''startselect'' \<and> str_contains ''BTN_BACK'' l \<and> str_contains ''value 1'' l)
         \<or> (a = ''select_press'' \<and> str_contains ''BTN_SELECT'' l \<and> str_contains ''value 1'' l)
         \<or> (a = ''select_release'' \<and> str_contains ''BTN_SELECT'' l \<and> str_contains ''value 0'' l)
         \<or> (a = ''start_press'' \<and> str_contains ''BTN_START'' l \<and> str_contains ''value 1'' l)
         \<or> (a = ''start_release'' \<and> str_contains ''BTN_START'' l \<and> str_contains ''value 0'' l))"
proof -
  note c = evtest_contains[OF assms]
  have 1: "handle_line (evtest_key_line time code ''BTN_BACK'' ''1'') = Some ''startselect''"
    unfolding handle_line_cases c by simp
  have 2: "handle_line (evtest_key_line time code ''BTN_SELECT'' ''1'') = Some ''select_press''"
    unfolding handle_line_cases c by simp
  have 3: "handle_line (evtest_key_line time code ''BTN_SELECT'' ''0'') = Some ''select_release''"
    unfolding handle_line_cases c by simp
  have 4: "handle_line (evtest_key_line time code ''BTN_START'' ''1'') = Some ''start_press''"
    unfolding handle_line_cases c by simp
  have 5: "handle_line (evtest_key_line time code ''BTN_START'' ''0'') = Some ''start_release''"
    unfolding handle_line_cases c by simp
  have 6: "handle_line l = Some a \<longrightarrow>
           (a = ''startselect'' \<and> str_contains ''BTN_BACK'' l \<and> str_contains ''value 1'' l)
         \<or> (a = ''select_press'' \<and> str_contains ''BTN_SELECT'' l \<and> str_contains ''value 1'' l)
         \<or> (a = ''select_release'' \<and> str_contains ''BTN_SELECT'' l \<and> str_contains ''value 0'' l)
         \<or> (a = ''start_press'' \<and> str_contains ''BTN_START'' l \<and> str_contains ''value 1'' l)
         \<or> (a = ''start_release'' \<and> str_contains ''BTN_START'' l \<and> str_contains ''value 0'' l)"
    unfolding handle_line_cases by (auto split: if_splits)
  from adckeys_eq 1 2 3 4 5 6 show ?thesis by blast
qed

theorem adckeys_dispatch_witness:
  "numeric ''1700000000.123456'' \<and> numeric ''314''
   \<and> handle_line ''Event: time 1700000000.123456, type 1 (EV_KEY), code 314 (BTN_SELECT), value 1''
        = Some ''select_press''
   \<and> handle_line ''Event: time 1700000000.123456, type 1 (EV_KEY), code 314 (BTN_SELECT), value 0''
        = Some ''select_release''
   \<and> adckeys ''XiFan D007 Plus''
        [[''Event: time 1700000000.123456, type 1 (EV_KEY), code 314 (BTN_SELECT), value 1'',
          ''Event: time 1700000000.123456, -------------- SYN_REPORT ------------'']]
        = [''select_press'']"
proof -
  have n: "numeric ''1700000000.123456''" "numeric ''314''" by (simp_all add: numeric_def)
  have s: "handle_line ''Event: time 1700000000.123456, -------------- SYN_REPORT ------------'' = None"
    by (simp add: handle_line_def)
  have d: "str_contains ''D007 Plus'' ''XiFan D007 Plus''" by simp
  from adckeys_dispatch[OF n, of "''XiFan D007 Plus''"
      "[[''Event: time 1700000000.123456, type 1 (EV_KEY), code 314 (BTN_SELECT), value 1'',
          ''Event: time 1700000000.123456, -------------- SYN_REPORT ------------'']]"]
  show ?thesis using n s d by (simp add: evtest_key_line_def List.map_filter_simps)
qed

section \<open>dtb_selector: copying a directory always returns\<close>

lemma fold_max_ge: "fold max xs (a::nat) \<ge> a"
proof (induction xs arbitrary: a)
  case Nil
  show ?case by simp
next
  case (Cons x xs)
  have "a \<le> max x a" by simp
  also have "\<dots> \<le> fold max xs (max x a)" by (rule Cons.IH)
  finally show ?case by simp
qed

lemma fold_max_mem: "x \<in> set xs \<Longrightarrow> x \<le> fold max xs (a::nat)"
proof (induction xs arbitrary: a)
  case Nil
  then show ?case by simp
next
  case (Cons y ys)
  show ?case
  proof (cases "x = y")
    case True
    have "max y a \<le> fold max ys (max y a)" by (rule fold_max_ge)
    with True show ?thesis by simp
  next
    case False
    with Cons show ?thesis by simp
  qed
qed

lemma bounded_height: "bounded (height t) t"
  unfolding bounded_def height_def
  by (auto intro!: fold_max_mem simp: rev_image_eqI)

lemma bounded_update:
  "bounded H t \<Longrightarrow> length k \<le> H \<Longrightarrow> bounded H (AList.update k v t)"
  by (auto simp: bounded_def AList.update_keys split: if_splits)

lemma bounded_mkdir_from:
  "mkdir_from cur p t = Inr t' \<Longrightarrow> bounded H t \<Longrightarrow> length cur + length p \<le> H \<Longrightarrow> bounded H t'"
proof (induction p arbitrary: cur t)
  case Nil
  then show ?case by simp
next
  case (Cons c cs)
  show ?case
  proof (cases "lookup t (cur @ [c])")
    case None
    with Cons.prems(1) have m: "mkdir_from (cur @ [c]) cs (AList.update (cur @ [c]) Dir t) = Inr t'"
      by simp
    have "bounded H (AList.update (cur @ [c]) Dir t)"
      using Cons.prems by (intro bounded_update) auto
    from Cons.IH[OF m this] Cons.prems(3) show ?thesis by simp
  next
    case (Some n)
    show ?thesis
    proof (cases n)
      case (File d)
      with Some Cons.prems(1) show ?thesis by simp
    next
      case Dir
      with Some Cons.prems(1) have "mkdir_from (cur @ [c]) cs t = Inr t'" by simp
      from Cons.IH[OF this Cons.prems(2)] Cons.prems(3) show ?thesis by simp
    qed
  qed
qed

lemma bounded_MkdirAll:
  "MkdirAll p t = Inr t' \<Longrightarrow> bounded H t \<Longrightarrow> length p \<le> H \<Longrightarrow> bounded H t'"
  unfolding MkdirAll_def using bounded_mkdir_from[of "[]" p t t' H] by simp

lemma bounded_create_trunc:
  "create_trunc p t = Inr t' \<Longrightarrow> bounded H t \<Longrightarrow> length p \<le> H \<Longrightarrow> bounded H t'"
  by (auto simp: create_trunc_def bounded_update split: option.splits node.splits sum.splits)

lemma bounded_copyFile:
  assumes "bounded H t" "length dst \<le> H"
  shows "bounded H (snd (copyFile src dst t))"
proof -
  have b: "length (butlast dst) \<le> H" using assms(2) by simp
  show ?thesis
    using assms
    by (auto simp: copyFile_def split: sum.splits option.splits node.splits
        dest!: bounded_MkdirAll[OF _ _ b] intro: bounded_update
        dest: bounded_create_trunc)
qed


lemma bounded_copy_entry:
  assumes "bounded H t" "length path \<le> H"
  shows "bounded H (snd (copy_entry src [] path d w t))"
proof -
  have l: "length (drop (length src) path) \<le> H" using assms(2) by simp
  show ?thesis
    using assms(1) l
    by (auto simp: copy_entry_def Rel_def Let_def bounded_copyFile
        split: option.splits sum.splits dest: bounded_MkdirAll)
qed

lemma map_filter_mem:
  "y \<in> set (List.map_filter f xs) \<Longrightarrow> \<exists>x \<in> set xs. f x = Some y"
  by (induction xs) (auto split: option.splits)

lemma ReadDir_entries:
  assumes "ReadDir t p = Inr dirs" "d \<in> set dirs"
  shows "p @ [fst d] \<in> set (map fst t)"
proof -
  let ?names = "sort (remdups (map (\<lambda>q. last q) (filter (\<lambda>q. q \<noteq> [] \<and> butlast q = p) (map fst t))))"
  from assms(1) have "dirs = List.map_filter (\<lambda>name. map_option (Pair name) (lookup t (p @ [name]))) ?names"
    by (auto simp: ReadDir_def split: sum.splits node.splits)
  with assms(2) have "d \<in> set (List.map_filter
      (\<lambda>name. map_option (Pair name) (lookup t (p @ [name]))) ?names)" by simp
  from map_filter_mem[OF this] obtain name where nm: "name \<in> set ?names"
      and "map_option (Pair name) (lookup t (p @ [name])) = Some d"
    by blast
  from this(2) have "fst d = name" by (cases "lookup t (p @ [name])") auto
  with nm have "fst d \<in> set ?names" by (simp only:)
  then have "fst d \<in> last ` {q \<in> set (map fst t). q \<noteq> [] \<and> butlast q = p}" by simp
  then obtain q where q: "q \<in> set (map fst t)" "q \<noteq> []" "butlast q = p" "fst d = last q" by blast
  then have "p @ [fst d] = q" using append_butlast_last_id[of q] by simp
  with q(1) show ?thesis by simp
qed

lemma walk_returns:
  "fn = copy_entry src [] \<Longrightarrow> bounded H t \<Longrightarrow> length path \<le> H \<Longrightarrow> H \<le> n + length path
     \<Longrightarrow> \<exists>e t'. walkDir n fn path d t = Some (e, t') \<and> bounded H t'"
  "fn = copy_entry src [] \<Longrightarrow> bounded H t \<Longrightarrow> length path \<le> H \<Longrightarrow> H \<le> n + length path
     \<Longrightarrow> (dirs \<noteq> [] \<longrightarrow> length path < H)
     \<Longrightarrow> \<exists>e t'. walkEntries n fn path dirs t = Some (e, t') \<and> bounded H t'"
proof (induction n fn path d t and n fn path dirs t rule: walkDir_walkEntries.induct)
  case (1 n fn path d t)
  obtain e1 t1 where f: "fn path d None t = (e1, t1)" by force
  have b1: "bounded H t1"
    using bounded_copy_entry[OF "1.prems"(2,3), of src d None] f "1.prems"(1) by simp
  show ?case
  proof (cases e1)
    case (Some e)
    with f b1 show ?thesis by simp
  next
    case None
    show ?thesis
    proof (cases "IsDir d")
      case False
      with f None b1 show ?thesis by simp
    next
      case True
      show ?thesis
      proof (cases "ReadDir t1 path")
        case (Inl e)
        have "bounded H (snd (fn path d (Some e) t1))"
          using bounded_copy_entry[OF b1 "1.prems"(3), of src d "Some e"] "1.prems"(1) by simp
        with f None True Inl show ?thesis by (cases "fn path d (Some e) t1") simp
      next
        case (Inr dirs)
        have "dirs \<noteq> [] \<longrightarrow> length path < H"
        proof
          assume "dirs \<noteq> []"
          then obtain d1 where "d1 \<in> set dirs" by (cases dirs) auto
          from ReadDir_entries[OF Inr this] b1 have "length (path @ [fst d1]) \<le> H"
            unfolding bounded_def by blast
          then show "length path < H" by simp
        qed
        from "1.IH"[OF f[symmetric] None _ Inr "1.prems"(1) b1 "1.prems"(3,4) this] True
        have "\<exists>e t'. walkEntries n fn path dirs t1 = Some (e, t') \<and> bounded H t'" by simp
        with f None True Inr show ?thesis by simp
      qed
    qed
  qed
next
  case (2 n fn path t)
  then show ?case by simp
next
  case (3 fn path d1 dirs t)
  then show ?case by simp
next
  case (4 n fn path d1 dirs t)
  from "4.prems" have lt: "length path < H" by simp
  have "\<exists>e t'. walkDir n fn (path @ [fst d1]) (snd d1) t = Some (e, t') \<and> bounded H t'"
    using "4.IH"(1)[OF "4.prems"(1,2)] lt "4.prems"(4) by simp
  then obtain e1 t1 where w: "walkDir n fn (path @ [fst d1]) (snd d1) t = Some (e1, t1)"
    and b1: "bounded H t1" by blast
  show ?case
  proof (cases e1)
    case (Some e)
    with w b1 show ?thesis by simp
  next
    case None
    have "\<exists>e t'. walkEntries (Suc n) fn path dirs t1 = Some (e, t') \<and> bounded H t'"
      using "4.IH"(2) w None "4.prems"(1,3,4) b1 lt
      by simp
    with w None show ?thesis by simp
  qed
qed

lemma copyDirectory_returns: "\<exists>e t'. copyDirectory src [] t = Some (e, t')"
proof (cases "Stat t src")
  case (Inl e)
  then show ?thesis by (simp add: copyDirectory_def)
next
  case (Inr info)
  show ?thesis
  proof (cases "IsDir info")
    case False
    with Inr show ?thesis by (simp add: copyDirectory_def)
  next
    case True
    have "length src \<le> height t"
    proof (cases "src = []")
      case True
      then show ?thesis by simp
    next
      case False
      with Inr have "map_of t src = Some info"
        by (auto simp: Stat_def lookup_def split: option.splits)
      then have "(src, info) \<in> set t" by (rule map_of_SomeD)
      then have "src \<in> set (map fst t)" by force
      with bounded_height[of t] show ?thesis unfolding bounded_def by blast
    qed
    from walk_returns(1)[OF refl bounded_height this, of "height t" src info]
    obtain e t' where "walkDir (height t) (copy_entry src []) src info t = Some (e, t')" by auto
    with Inr True show ?thesis by (simp add: copyDirectory_def WalkDir_def)
  qed
qed


section \<open>dtb_selector: the menu\<close>

lemma ReadString_line:
  assumes "CHR 0x0A \<notin> set l" "stdin c = l @ CHR 0x0A # rest"
  shows "ReadString c = ((l @ [CHR 0x0A], None), c\<lparr>stdin := rest\<rparr>)"
proof -
  have 1: "takeWhile (\<lambda>b. b \<noteq> CHR 0x0A) (l @ CHR 0x0A # rest) = l"
    using assms(1) by (induction l) auto
  have 2: "dropWhile (\<lambda>b. b \<noteq> CHR 0x0A) (l @ CHR 0x0A # rest) = CHR 0x0A # rest"
    using assms(1) by (induction l) auto
  show ?thesis unfolding ReadString_def using assms(2) 1 2 by simp
qed

lemma TrimSpace_nl: "TrimSpace (l @ [CHR 0x0A]) = TrimSpace l"
proof (cases "\<forall>x \<in> set l. asciiSpace x")
  case True
  have a: "dropWhile asciiSpace (l @ [CHR 0x0A]) = []"
    using True by (simp add: dropWhile_eq_Nil_conv asciiSpace_def)
  have b: "dropWhile asciiSpace l = []"
    using True by (simp add: dropWhile_eq_Nil_conv)
  show ?thesis unfolding TrimSpace_def a b by simp
next
  case False
  then obtain x where "x \<in> set l" "\<not> asciiSpace x" by blast
  then have "dropWhile asciiSpace (l @ [CHR 0x0A]) = dropWhile asciiSpace l @ [CHR 0x0A]"
    by (rule dropWhile_append1)
  then show ?thesis by (simp add: TrimSpace_def asciiSpace_def)
qed

lemma prompt_line:
  assumes "CHR 0x0A \<notin> set l" "stdin c = l @ CHR 0x0A # rest"
  shows "prompt m c = (Inr (TrimSpace l), (c\<lparr>stdin := rest, stdout := stdout c @ [m]\<rparr>))"
proof -
  have "stdin (print m c) = l @ CHR 0x0A # rest" using assms(2) by (simp add: print_def)
  from ReadString_line[OF assms(1) this] show ?thesis
    by (simp add: prompt_def TrimSpace_nl print_def)
qed


lemma readIntChoice_line:
  assumes "CHR 0x0A \<notin> set l" "stdin c = l @ CHR 0x0A # rest"
  shows "readIntChoice bits m c =
     (if is_quit (TrimSpace l) then (Inr 0, (c\<lparr>stdin := rest, stdout := stdout c @ [m]\<rparr>))
      else case Atoi bits (TrimSpace l) of
             Inl e \<Rightarrow> readIntChoice bits m (c\<lparr>stdin := rest, stdout := stdout c @ [m, MsgEnterNumber]\<rparr>)
           | Inr n \<Rightarrow> (Inr n, (c\<lparr>stdin := rest, stdout := stdout c @ [m]\<rparr>)))"
  by (subst readIntChoice.simps)
     (simp add: prompt_line[OF assms] is_quit_def print_def split: sum.splits)

lemma selectXiFan_loop_line:
  assumes "CHR 0x0A \<notin> set l" "stdin c = l @ CHR 0x0A # rest"
  shows "selectXiFan_loop bits c =
     (if is_quit (TrimSpace l) then (SelNil, (c\<lparr>stdin := rest, stdout := stdout c @ [MsgPromptChoice]\<rparr>))
      else case Atoi bits (TrimSpace l) of
             Inl e \<Rightarrow> selectXiFan_loop bits (c\<lparr>stdin := rest, stdout := stdout c @ [MsgPromptChoice, MsgEnterNumber]\<rparr>)
           | Inr n \<Rightarrow>
               if n = 0 then (SelNil, (c\<lparr>stdin := rest, stdout := stdout c @ [MsgPromptChoice]\<rparr>))
               else if 1 \<le> n \<and> n \<le> 8
               then (SelOption (nat (n - 1)), (c\<lparr>stdin := rest, stdout := stdout c @ [MsgPromptChoice]\<rparr>))
               else selectXiFan_loop bits (c\<lparr>stdin := rest, stdout := stdout c @ [MsgPromptChoice, MsgInvalidChoice]\<rparr>))"
proof (cases "\<not> is_quit (TrimSpace l) \<and> (\<exists>e. Atoi bits (TrimSpace l) = Inl e)")
  case True
  then obtain e where e: "Atoi bits (TrimSpace l) = Inl e" and q: "\<not> is_quit (TrimSpace l)" by blast
  let ?c1 = "(c\<lparr>stdin := rest, stdout := stdout c @ [MsgPromptChoice, MsgEnterNumber]\<rparr>)"
  have r: "readIntChoice bits MsgPromptChoice c = readIntChoice bits MsgPromptChoice ?c1"
    using readIntChoice_line[OF assms, of bits MsgPromptChoice] e q by simp
  have "selectXiFan_loop bits c = selectXiFan_loop bits ?c1"
    by (subst selectXiFan_loop.simps, subst (2) selectXiFan_loop.simps) (simp only: r)
  with e q show ?thesis by simp
next
  case False
  then show ?thesis
    by (subst selectXiFan_loop.simps)
       (auto simp: readIntChoice_line[OF assms] XiFanOptions_def index_addr_def print_def
             split: sum.splits)
qed


lemma stdin_print [simp]: "stdin (print m c) = stdin c"
  by (simp add: print_def)

lemma stdin_fold_print [simp]: "stdin (fold (\<lambda>x. print (f x)) xs c) = stdin c"
  by (induction xs arbitrary: c) simp_all

lemma stdin_print_menu [simp]: "stdin (print_menu c) = stdin c"
  by (simp add: print_menu_def case_prod_unfold)

lemma selectXiFan_loop_cases:
  "(\<exists>e. fst (selectXiFan_loop bits c) = SelError e) \<or> fst (selectXiFan_loop bits c) = SelNil
   \<or> (\<exists>choice. 1 \<le> choice \<and> choice \<le> int (length XiFanOptions)
         \<and> fst (selectXiFan_loop bits c) = SelOption (nat (choice - 1))
         \<and> index_addr XiFanOptions (choice - 1) = Some (nat (choice - 1)))"
proof (induction bits c rule: selectXiFan_loop.induct)
  case (1 bits c)
  obtain r c1 where rc: "readIntChoice bits MsgPromptChoice c = (r, c1)" by force
  show ?case
  proof (cases r)
    case (Inl e)
    with rc show ?thesis by (subst selectXiFan_loop.simps) simp
  next
    case (Inr choice)
    consider "choice = 0" | "choice > 0 \<and> choice \<le> int (length XiFanOptions)"
      | "choice \<noteq> 0" "\<not> (choice > 0 \<and> choice \<le> int (length XiFanOptions))" by blast
    then show ?thesis
    proof cases
      case 1
      with rc Inr show ?thesis by (subst selectXiFan_loop.simps) simp
    next
      case 2
      then have i: "index_addr XiFanOptions (choice - 1) = Some (nat (choice - 1))"
        by (simp add: index_addr_def)
      with rc Inr 2 have "fst (selectXiFan_loop bits c) = SelOption (nat (choice - 1))"
        by (subst selectXiFan_loop.simps) simp
      with 2 i show ?thesis by (intro disjI2 exI[of _ choice]) simp
    next
      case 3
      with rc Inr have "selectXiFan_loop bits c = selectXiFan_loop bits (print MsgInvalidChoice c1)"
        by (subst selectXiFan_loop.simps) auto
      moreover have "(\<exists>e. fst (selectXiFan_loop bits (print MsgInvalidChoice c1)) = SelError e)
          \<or> fst (selectXiFan_loop bits (print MsgInvalidChoice c1)) = SelNil
          \<or> (\<exists>choice. 1 \<le> choice \<and> choice \<le> int (length XiFanOptions)
             \<and> fst (selectXiFan_loop bits (print MsgInvalidChoice c1)) = SelOption (nat (choice - 1))
             \<and> index_addr XiFanOptions (choice - 1) = Some (nat (choice - 1)))"
        using "1.IH" rc Inr 3 by auto
      ultimately show ?thesis by simp
    qed
  qed
qed

text \<open>
  C10. Whatever is on standard input, \<open>selectXiFan\<close> returns an error, \<^verbatim>\<open>nil\<close>, or the
  pointer to \<open>XiFanOptions[choice-1]\<close> for a \<open>choice\<close> from 1 to the length of the list, and
  the indexing is within the bounds: the panic is never the result. (The function is
  total: its loops end, since every turn consumes a line of the input.)
\<close>

theorem selectXiFan_in_bounds:
  "(\<exists>e. fst (selectXiFan bits c) = SelError e) \<or> fst (selectXiFan bits c) = SelNil
   \<or> (\<exists>choice. 1 \<le> choice \<and> choice \<le> int (length XiFanOptions)
         \<and> fst (selectXiFan bits c) = SelOption (nat (choice - 1))
         \<and> index_addr XiFanOptions (choice - 1) = Some (nat (choice - 1)))"
  unfolding selectXiFan_def by (rule selectXiFan_loop_cases)

lemma Atoi_99: "Atoi 64 ''99'' = Inr 99"
  by (simp add: Atoi_def is_digit_def digits_value_def less_eq_char_def)

lemma Atoi_3: "Atoi 64 ''3'' = Inr 3"
  by (simp add: Atoi_def is_digit_def digits_value_def less_eq_char_def)

lemma nq: "\<not> is_quit ''99''" "\<not> is_quit ''3''"
  by (simp_all add: is_quit_def ToLower_def lower_byte_def less_eq_char_def)

lemma ts: "TrimSpace ''99'' = ''99''" "TrimSpace ''3'' = ''3''"
  by (simp_all add: TrimSpace_def asciiSpace_def)

theorem selectXiFan_in_bounds_witness:
  "fst (selectXiFan 64 \<lparr>stdin = ''99'' @ [CHR 0x0A] @ ''3'' @ [CHR 0x0A], stdout = []\<rparr>) = SelOption 2
   \<and> index_addr XiFanOptions 2 = Some 2"
proof -
  let ?c = "\<lparr>stdin = ''99'' @ [CHR 0x0A] @ ''3'' @ [CHR 0x0A], stdout = []\<rparr>"
  have "fst (selectXiFan 64 ?c) = SelOption 2"
    unfolding selectXiFan_def
    apply (subst selectXiFan_loop_line[where l="''99''" and rest="''3'' @ [CHR 0x0A]"])
      apply simp
     apply simp
    apply (simp add: ts nq Atoi_99)
    apply (subst selectXiFan_loop_line[where l="''3''" and rest="[]"])
      apply simp
     apply simp
    apply (simp add: ts nq Atoi_3)
    done
  with selectXiFan_in_bounds[of 64 ?c] show ?thesis by (auto simp: index_addr_def XiFanOptions_def)
qed

lemma stdout_print [simp]: "stdout (print m c) = stdout c @ [m]"
  by (simp add: print_def)







text \<open>What has been printed when the menu asks for the first time.\<close>

lemma digit_line_all:
  "\<forall>n \<in> set [1 ..< 9]. \<forall>bits \<in> set [32, 64].
     TrimSpace (string_of_nat n) = string_of_nat n \<and> \<not> is_quit (string_of_nat n)
         \<and> Atoi bits (string_of_nat n) = Inr (int n) \<and> CHR 0x0A \<notin> set (string_of_nat n)"
  by code_simp

lemma digit_line:
  assumes "bits = 32 \<or> bits = 64" "1 \<le> n" "n \<le> 8"
  shows "TrimSpace (string_of_nat n) = string_of_nat n \<and> \<not> is_quit (string_of_nat n)
         \<and> Atoi bits (string_of_nat n) = Inr (int n) \<and> CHR 0x0A \<notin> set (string_of_nat n)"
proof -
  from assms have "n \<in> set [1 ..< 9]" "bits \<in> set [32, 64]" by auto
  with digit_line_all show ?thesis by blast
qed

lemma main_selects:
  assumes "bits = 32 \<or> bits = 64" "1 \<le> n" "n \<le> 8"
    and "stdin c = string_of_nat n @ CHR 0x0A # rest"
  shows "main bits c t =
     install (XiFanOptions ! (n - 1))
       ((greeting c)\<lparr>stdin := rest, stdout := stdout (greeting c) @ [MsgPromptChoice]\<rparr>) t"
proof -
  note d = digit_line[OF assms(1-3)]
  have s: "stdin (greeting c) = string_of_nat n @ CHR 0x0A # rest"
    using assms(4) by (simp add: greeting_def)
  from d have nl: "CHR 0x0A \<notin> set (string_of_nat n)" by simp
  have "nat (int n - 1) = n - 1" by simp
  then have "selectXiFan_loop bits (greeting c) =
      (SelOption (n - 1), (greeting c)\<lparr>stdin := rest, stdout := stdout (greeting c) @ [MsgPromptChoice]\<rparr>)"
    using selectXiFan_loop_line[OF nl s, of bits] d assms(2,3) by simp
  then show ?thesis
    by (simp add: main_def selectXiFan_def greeting_def Let_def)
qed

section \<open>dtb_selector: the main flow\<close>

lemma path_of_dot [simp]: "path_of ''.'' = []"
  by code_simp


lemma copyDirectory_not_None [simp]: "copyDirectory src [] t \<noteq> None"
  using copyDirectory_returns[of src t] by auto






lemma options_have_logo:
  "\<forall>n \<in> set [1 ..< 9]. Logo (XiFanOptions ! (n - 1)) \<noteq> []"
  by code_simp

text \<open>
  C1, as the program has it. For a valid answer \<open>n\<close> the run ends, and it makes these
  steps in this order, ending at the first that fails: when nothing is at
  \<^verbatim>\<open>consoles/<Real>\<close> it copies nothing and the tree stays as it was; otherwise it calls
  \<open>copyDirectory\<close> on it with the target \<^verbatim>\<open>.\<close>; when that succeeds and \<open>Stat\<close> finds
  \<^verbatim>\<open>consoles/<Logo>\<close>, it calls \<open>copyDirectory\<close> on that; when nothing has failed it calls
  \<open>createCNFile\<close>. It makes no other call, and the tree at the end is the one these
  calls leave.
\<close>

theorem main_steps_in_order:
  assumes "bits = 32 \<or> bits = 64" and "1 \<le> n" and "n \<le> 8"
    and "stdin c = string_of_nat n @ CHR 0x0A # rest"
  shows "\<exists>r. main bits c t = Some r \<and>
     (let opt = XiFanOptions ! (n - 1);
          src = Join [''consoles'', Real opt];
          logo = Join [''consoles'', Logo opt]
      in if Stat t src = Inl ENOENT then called r = [] \<and> tree r = t
         else (\<exists>e1 t1. copyDirectory src [] t = Some (e1, t1) \<and>
           (if e1 \<noteq> None then called r = [CopyDirectory src []] \<and> tree r = t1
            else if (\<exists>e. Stat t1 logo = Inl e)
            then called r = [CopyDirectory src [], CreateCNFile] \<and> tree r = with_cn t1
            else (\<exists>e2 t2. copyDirectory logo [] t1 = Some (e2, t2) \<and>
              (if e2 \<noteq> None
               then called r = [CopyDirectory src [], CopyDirectory logo []] \<and> tree r = t2
               else called r = [CopyDirectory src [], CopyDirectory logo [], CreateCNFile]
                    \<and> tree r = with_cn t2)))))"
proof -
  let ?opt = "XiFanOptions ! (n - 1)"
  let ?src = "Join [''consoles'', Real ?opt]" and ?logo = "Join [''consoles'', Logo ?opt]"
  let ?c = "(greeting c)\<lparr>stdin := rest, stdout := stdout (greeting c) @ [MsgPromptChoice]\<rparr>"
  have m: "main bits c t = install ?opt ?c t" by (rule main_selects[OF assms])
  from assms(2,3) have "n \<in> set [1 ..< 9]" by simp
  with options_have_logo have l: "Logo ?opt \<noteq> []" by blast
  have f: "\<And>cs c t. called (finish ?opt cs c t) = cs @ [CreateCNFile]
                   \<and> tree (finish ?opt cs c t) = with_cn t"
    by (auto simp: finish_def createCNFile_def with_cn_def split: sum.splits)
  show ?thesis
  proof (cases "Stat t ?src = Inl ENOENT")
    case True
    then show ?thesis unfolding m Let_def by (simp add: install_def IsNotExist_def)
  next
    case ne: False
    obtain e1 t1 where c1: "copyDirectory ?src [] t = Some (e1, t1)"
      using copyDirectory_returns by blast
    show ?thesis
    proof (cases e1)
      case (Some e)
      with ne c1 show ?thesis unfolding m Let_def by (simp add: install_def IsNotExist_def)
    next
      case None
      show ?thesis
      proof (cases "Stat t1 ?logo")
        case (Inl e)
        with ne c1 None l f show ?thesis unfolding m Let_def
          by (simp add: install_def IsNotExist_def)
      next
        case (Inr info)
        obtain e2 t2 where c2: "copyDirectory ?logo [] t1 = Some (e2, t2)"
          using copyDirectory_returns by blast
        with ne c1 None l f Inr show ?thesis unfolding m Let_def
          by (cases e2) (simp_all add: install_def IsNotExist_def)
      qed
    qed
  qed
qed

theorem main_steps_in_order_witness:
  "map_option called (main 64 answer_1 tree_mymini) =
     Some [CopyDirectory [''consoles'', ''mymini''] [],
           CopyDirectory [''consoles'', ''logo'', ''480P''] [], CreateCNFile]
   \<and> map_option tree (main 64 answer_1 tree_mymini) =
     Some (tree_mymini @ [([''boot.ini''], File ''b''), ([''logo.bmp''], File ''L''), ([''.cn''], File [])])"
proof -
  have s: "stdin answer_1 = string_of_nat 1 @ CHR 0x0A # []" by code_simp
  have 1: "Stat tree_mymini (Join [''consoles'', Real (XiFanOptions ! (1 - 1))]) \<noteq> Inl ENOENT"
    by code_simp
  have 2: "copyDirectory (Join [''consoles'', Real (XiFanOptions ! (1 - 1))]) [] tree_mymini
      = Some (None, tree_mymini @ [([''boot.ini''], File ''b'')])"
    by code_simp
  have 3: "Stat (tree_mymini @ [([''boot.ini''], File ''b'')])
      (Join [''consoles'', Logo (XiFanOptions ! (1 - 1))]) = Inr Dir"
    by code_simp
  have 4: "copyDirectory (Join [''consoles'', Logo (XiFanOptions ! (1 - 1))]) []
      (tree_mymini @ [([''boot.ini''], File ''b'')])
      = Some (None, tree_mymini @ [([''boot.ini''], File ''b''), ([''logo.bmp''], File ''L'')])"
    by code_simp
  have 5: "with_cn (tree_mymini @ [([''boot.ini''], File ''b''), ([''logo.bmp''], File ''L'')])
      = tree_mymini @ [([''boot.ini''], File ''b''), ([''logo.bmp''], File ''L''), ([''.cn''], File [])]"
    by code_simp
  have j: "Join [''consoles'', Real (XiFanOptions ! (1 - 1))] = [''consoles'', ''mymini'']"
    "Join [''consoles'', Logo (XiFanOptions ! (1 - 1))] = [''consoles'', ''logo'', ''480P'']"
    by code_simp+
  from main_steps_in_order[of 64 1 answer_1 "[]" tree_mymini, OF _ _ _ s]
  obtain r where r: "main 64 answer_1 tree_mymini = Some r"
    and "called r = [CopyDirectory [''consoles'', ''mymini''] [],
           CopyDirectory [''consoles'', ''logo'', ''480P''] [], CreateCNFile]
        \<and> tree r = tree_mymini @ [([''boot.ini''], File ''b''), ([''logo.bmp''], File ''L''), ([''.cn''], File [])]"
    unfolding Let_def using 1 2 3 4 5 unfolding j by auto
  then show ?thesis by simp
qed

text \<open>
  The claim, as stated, fails: the answer 1 is valid, but in an empty directory nothing
  is at \<^verbatim>\<open>consoles/mymini\<close>, and the program ends having copied nothing and without
  creating \<^verbatim>\<open>.cn\<close> (line 163).
\<close>

theorem main_copies_nothing_without_source:
  "map_option called (main 64 answer_1 []) = Some []
   \<and> map_option tree (main 64 answer_1 []) = Some []"
  by code_simp

section \<open>dtb_selector: the marker file\<close>

lemma map_of_update_other: "k' \<noteq> k \<Longrightarrow> map_of (AList.update k' v t) k = map_of t k"
  by (simp add: AList.update_conv')

lemma lookup_update_other: "k' \<noteq> k \<Longrightarrow> lookup (AList.update k' v t) k = lookup t k"
  by (simp add: lookup_def map_of_update_other)

lemma frame_mkdir_from:
  "mkdir_from cur p t = Inr t' \<Longrightarrow> cur @ p = [] \<or> hd (cur @ p) \<noteq> k \<Longrightarrow> lookup t' [k] = lookup t [k]"
proof (induction p arbitrary: cur t)
  case Nil
  then show ?case by simp
next
  case (Cons c cs)
  from Cons.prems(2) have h: "hd (cur @ c # cs) \<noteq> k" by simp
  then have ne: "cur @ [c] \<noteq> [k]" by (cases cur) auto
  have h': "(cur @ [c]) @ cs = [] \<or> hd ((cur @ [c]) @ cs) \<noteq> k" using h by simp
  show ?case
  proof (cases "lookup t (cur @ [c])")
    case None
    with Cons.prems(1) have "mkdir_from (cur @ [c]) cs (AList.update (cur @ [c]) Dir t) = Inr t'"
      by simp
    from Cons.IH[OF this h'] ne show ?thesis by (simp add: lookup_update_other)
  next
    case (Some n)
    show ?thesis
    proof (cases n)
      case (File d)
      with Some Cons.prems(1) show ?thesis by simp
    next
      case Dir
      with Some Cons.prems(1) have "mkdir_from (cur @ [c]) cs t = Inr t'" by simp
      from Cons.IH[OF this h'] show ?thesis .
    qed
  qed
qed

lemma frame_MkdirAll:
  "MkdirAll p t = Inr t' \<Longrightarrow> p = [] \<or> hd p \<noteq> k \<Longrightarrow> lookup t' [k] = lookup t [k]"
  unfolding MkdirAll_def using frame_mkdir_from[of "[]" p t t' k] by simp

lemma frame_create_trunc:
  "create_trunc p t = Inr t' \<Longrightarrow> p \<noteq> [k] \<Longrightarrow> lookup t' [k] = lookup t [k]"
  by (auto simp: create_trunc_def lookup_update_other split: option.splits node.splits sum.splits)

lemma frame_copyFile:
  assumes "dst = [] \<or> hd dst \<noteq> k"
  shows "lookup (snd (copyFile src dst t)) [k] = lookup t [k]"
proof -
  have b: "butlast dst = [] \<or> hd (butlast dst) \<noteq> k"
    using assms by (cases dst) (auto split: if_splits)
  have d: "dst \<noteq> [k]" using assms by auto
  show ?thesis
    using d
    by (auto simp: copyFile_def lookup_update_other split: sum.splits option.splits node.splits
        dest!: frame_MkdirAll[OF _ b] frame_create_trunc[where k=k])
qed

lemma frame_copy_entry:
  assumes "take (length src) path = src"
    and "drop (length src) path = [] \<or> hd (drop (length src) path) \<noteq> k"
  shows "lookup (snd (copy_entry src [] path d w t)) [k] = lookup t [k]"
  using assms
  by (auto simp: copy_entry_def Rel_def Let_def frame_copyFile
      split: option.splits sum.splits dest: frame_MkdirAll)


lemma ReadDir_entry_lookup:
  assumes "ReadDir t p = Inr dirs" "d \<in> set dirs"
  shows "lookup t (p @ [fst d]) = Some (snd d)"
proof -
  let ?names = "sort (remdups (map (\<lambda>q. last q) (filter (\<lambda>q. q \<noteq> [] \<and> butlast q = p) (map fst t))))"
  from assms(1) have "dirs = List.map_filter (\<lambda>name. map_option (Pair name) (lookup t (p @ [name]))) ?names"
    by (auto simp: ReadDir_def split: sum.splits node.splits)
  with assms(2) have "d \<in> set (List.map_filter
      (\<lambda>name. map_option (Pair name) (lookup t (p @ [name]))) ?names)" by simp
  from map_filter_mem[OF this] obtain name where
    "map_option (Pair name) (lookup t (p @ [name])) = Some d" by blast
  then show ?thesis by (cases "lookup t (p @ [name])") auto
qed

lemma frame_walk:
  "fn = copy_entry src [] \<Longrightarrow> take (length src) path = src \<Longrightarrow> length src < length path
     \<Longrightarrow> path ! length src \<noteq> k \<Longrightarrow> walkDir n fn path d t = Some (e, t')
     \<Longrightarrow> lookup t' [k] = lookup t [k]"
  "fn = copy_entry src [] \<Longrightarrow> take (length src) path = src
     \<Longrightarrow> (length src < length path \<and> path ! length src \<noteq> k)
          \<or> (path = src \<and> (\<forall>d \<in> set dirs. fst d \<noteq> k))
     \<Longrightarrow> walkEntries n fn path dirs t = Some (e, t')
     \<Longrightarrow> lookup t' [k] = lookup t [k]"
proof (induction n fn path d t and n fn path dirs t arbitrary: e t' and e t'
    rule: walkDir_walkEntries.induct)
  case (1 n fn path d t)
  have r: "drop (length src) path = [] \<or> hd (drop (length src) path) \<noteq> k"
    using "1.prems"(3,4) by (simp add: hd_drop_conv_nth)
  note fr = frame_copy_entry[OF "1.prems"(2) r]
  obtain e1 t1 where f: "fn path d None t = (e1, t1)" by force
  have l1: "lookup t1 [k] = lookup t [k]" using fr[of d None t] f "1.prems"(1) by simp
  show ?case
  proof (cases e1)
    case (Some x)
    with f "1.prems"(5) l1 show ?thesis by simp
  next
    case None
    show ?thesis
    proof (cases "IsDir d")
      case False
      with f None "1.prems"(5) l1 show ?thesis by simp
    next
      case True
      show ?thesis
      proof (cases "ReadDir t1 path")
        case (Inl x)
        with f None True "1.prems"(5) have "fn path d (Some x) t1 = (e, t')" by simp
        with fr[of d "Some x" t1] "1.prems"(1) l1 show ?thesis by simp
      next
        case (Inr dirs)
        with f None True "1.prems"(5) have w: "walkEntries n fn path dirs t1 = Some (e, t')" by simp
        have "lookup t' [k] = lookup t1 [k]"
          using "1.IH"[OF f[symmetric] None _ Inr "1.prems"(1,2) _ w] True "1.prems"(3,4) by simp
        with l1 show ?thesis by simp
      qed
    qed
  qed
next
  case (2 n fn path t)
  then show ?case by simp
next
  case (3 fn path d1 dirs t)
  then show ?case by simp
next
  case (4 n fn path d1 dirs t)
  from "4.prems"(2) have ls: "length src \<le> length path"
    by (metis length_take min.cobounded2 min.commute)
  have tk: "take (length src) (path @ [fst d1]) = src" using "4.prems"(2) ls by simp
  have ln: "length src < length (path @ [fst d1])" using ls by simp
  have nk: "(path @ [fst d1]) ! length src \<noteq> k"
    using "4.prems"(3) by (auto simp: nth_append)
  obtain e1 t1 where w: "walkDir n fn (path @ [fst d1]) (snd d1) t = Some (e1, t1)"
    using "4.prems"(4) by (auto split: option.splits)
  have l1: "lookup t1 [k] = lookup t [k]"
    by (rule "4.IH"(1)[OF "4.prems"(1) tk ln nk w])
  show ?case
  proof (cases e1)
    case (Some x)
    with w "4.prems"(4) l1 show ?thesis by simp
  next
    case None
    with w "4.prems"(4) have w2: "walkEntries (Suc n) fn path dirs t1 = Some (e, t')" by simp
    have c: "(length src < length path \<and> path ! length src \<noteq> k)
          \<or> (path = src \<and> (\<forall>d \<in> set dirs. fst d \<noteq> k))"
      using "4.prems"(3) by auto
    have "lookup t' [k] = lookup t1 [k]"
      using "4.IH"(2)[OF w[unfolded None] refl refl "4.prems"(1,2) c w2] .
    with l1 show ?thesis by simp
  qed
qed

lemma frame_copyDirectory:
  assumes "copyDirectory src [] t = Some (e, t')" "lookup t (src @ [k]) = None"
  shows "lookup t' [k] = lookup t [k]"
proof (cases "Stat t src")
  case (Inl x)
  with assms(1) show ?thesis by (simp add: copyDirectory_def)
next
  case (Inr info)
  show ?thesis
  proof (cases "IsDir info")
    case False
    with Inr assms(1) show ?thesis by (simp add: copyDirectory_def)
  next
    case True
    let ?fn = "copy_entry src []"
    from Inr True assms(1) have w: "walkDir (height t) ?fn src info t = Some (e, t')"
      by (simp add: copyDirectory_def WalkDir_def)
    have f: "?fn src info None t = (None, t)"
      using True by (simp add: copy_entry_def Rel_def MkdirAll_def)
    have fe: "\<And>x. ?fn src info (Some x) t = (Some x, t)"
      by (simp add: copy_entry_def)
    show ?thesis
    proof (cases "ReadDir t src")
      case (Inl x)
      with w f fe True show ?thesis by simp
    next
      case (Inr dirs)
      with w f True have w2: "walkEntries (height t) ?fn src dirs t = Some (e, t')" by simp
      have "\<forall>d \<in> set dirs. fst d \<noteq> k"
      proof
        fix d assume "d \<in> set dirs"
        from ReadDir_entry_lookup[OF Inr this] assms(2) show "fst d \<noteq> k" by auto
      qed
      then show ?thesis using frame_walk(2)[OF refl _ _ w2, of k] by simp
    qed
  qed
qed


lemma last_print [simp]: "last (stdout (print m c)) = m"
  by (simp add: print_def)

lemma install_error_no_cn:
  "install sel c t = Some r \<Longrightarrow> reports_copy_error r \<Longrightarrow> CreateCNFile \<notin> set (called r)"
  by (auto simp: install_def finish_def createCNFile_def Let_def reports_copy_error_def
      split: option.splits sum.splits prod.splits if_splits)

lemma main_error_no_cn:
  "main bits c t = Some r \<Longrightarrow> reports_copy_error r \<Longrightarrow> CreateCNFile \<notin> set (called r)"
  by (auto simp: main_def Let_def split: prod.splits selection.splits dest: install_error_no_cn)

lemma install_error_frame:
  assumes "install sel c t = Some r" "reports_copy_error r"
    and "lookup t (Join [''consoles'', Real sel] @ [''.cn'']) = None"
    and "\<And>t1. copyDirectory (Join [''consoles'', Real sel]) [] t = Some (None, t1)
            \<Longrightarrow> lookup t1 (Join [''consoles'', Logo sel] @ [''.cn'']) = None"
  shows "lookup (tree r) [''.cn''] = lookup t [''.cn'']"
proof -
  let ?src = "Join [''consoles'', Real sel]" and ?logo = "Join [''consoles'', Logo sel]"
  show ?thesis
  proof (cases "IsNotExist (Stat t ?src)")
    case True
    with assms(1) show ?thesis by (auto simp: install_def)
  next
    case ne: False
    obtain e1 t1 where c1: "copyDirectory ?src [] t = Some (e1, t1)"
      using copyDirectory_returns by blast
    note f1 = frame_copyDirectory[OF c1 assms(3)]
    show ?thesis
    proof (cases e1)
      case (Some e)
      with ne c1 assms(1) f1 show ?thesis by (auto simp: install_def)
    next
      case None
      note l = assms(4)[OF c1[unfolded None]]
      obtain e2 t2 where c2: "copyDirectory ?logo [] t1 = Some (e2, t2)"
        using copyDirectory_returns by blast
      note f2 = frame_copyDirectory[OF c2 l]
      from ne c1 None c2 assms(1,2) have "tree r = t2"
        by (auto simp: install_def finish_def createCNFile_def Let_def reports_copy_error_def
            split: option.splits sum.splits prod.splits if_splits)
      with f1 f2 show ?thesis by simp
    qed
  qed
qed

text \<open>
  C9, as the program has it. A run of \<open>main\<close> that ends by reporting a missing source or
  a failed copy has not called \<open>createCNFile\<close>. And in such a run of the steps for an
  option, what is at \<^verbatim>\<open>.cn\<close> is as before (so nothing, if nothing was there) when
  neither the directory of the console nor, at the time it comes to be copied, that of the
  logo has an entry named \<^verbatim>\<open>.cn\<close>; \<open>copyDirectory\<close> copies such an entry like any other.
\<close>

theorem no_marker_after_copy_error:
  "(main bits c t = Some r \<and> reports_copy_error r \<longrightarrow> CreateCNFile \<notin> set (called r))
   \<and> (install sel c' t = Some r' \<and> reports_copy_error r'
        \<and> lookup t (Join [''consoles'', Real sel] @ [''.cn'']) = None
        \<and> (\<forall>t1. copyDirectory (Join [''consoles'', Real sel]) (path_of ''.'') t = Some (None, t1)
               \<longrightarrow> lookup t1 (Join [''consoles'', Logo sel] @ [''.cn'']) = None)
      \<longrightarrow> CreateCNFile \<notin> set (called r') \<and> lookup (tree r') [''.cn''] = lookup t [''.cn''])"
  using main_error_no_cn[of bits c t r] install_error_no_cn[of sel c' t r']
    install_error_frame[of sel c' t r']
  by auto

theorem no_marker_after_copy_error_witness:
  "map_option reports_copy_error (main 64 answer_1 tree_conflict) = Some True
   \<and> map_option called (main 64 answer_1 tree_conflict)
       = Some [CopyDirectory [''consoles'', ''mymini''] [],
               CopyDirectory [''consoles'', ''logo'', ''480P''] []]
   \<and> map_option (\<lambda>r. CreateCNFile \<notin> set (called r)) (main 64 answer_1 tree_conflict) = Some True
   \<and> map_option (\<lambda>r. lookup (tree r) [''.cn''])
        (install (XiFanOptions ! 0) answer_1 tree_conflict) = Some None"
proof -
  let ?sel = "XiFanOptions ! 0"
  have e: "map_option reports_copy_error (main 64 answer_1 tree_conflict) = Some True"
    "map_option called (main 64 answer_1 tree_conflict)
       = Some [CopyDirectory [''consoles'', ''mymini''] [],
               CopyDirectory [''consoles'', ''logo'', ''480P''] []]"
    by code_simp+
  then obtain r where r: "main 64 answer_1 tree_conflict = Some r" "reports_copy_error r" by auto
  with no_marker_after_copy_error[of 64 answer_1 tree_conflict r] have 1: "CreateCNFile \<notin> set (called r)"
    by blast
  have "map_option reports_copy_error (install ?sel answer_1 tree_conflict) = Some True"
    by code_simp
  then obtain r' where r': "install ?sel answer_1 tree_conflict = Some r'" "reports_copy_error r'"
    by auto
  have a: "lookup tree_conflict (Join [''consoles'', Real ?sel] @ [''.cn'']) = None"
    "lookup tree_conflict [''.cn''] = None"
    by code_simp+
  have c: "copyDirectory (Join [''consoles'', Real ?sel]) (path_of ''.'') tree_conflict
      = Some (None, tree_conflict @ [([''boot.ini''], File ''b'')])"
    by code_simp
  have b: "lookup (tree_conflict @ [([''boot.ini''], File ''b'')])
      (Join [''consoles'', Logo ?sel] @ [''.cn'']) = None"
    by code_simp
  from c b have "\<forall>t1. copyDirectory (Join [''consoles'', Real ?sel]) (path_of ''.'') tree_conflict
      = Some (None, t1) \<longrightarrow> lookup t1 (Join [''consoles'', Logo ?sel] @ [''.cn'']) = None"
    by simp
  with no_marker_after_copy_error[of 64 answer_1 tree_conflict r ?sel answer_1 r'] r' a
  have 2: "lookup (tree r') [''.cn''] = None" by simp
  from r r' e 1 2 show ?thesis by simp
qed

text \<open>
  The claim's last part, as stated, fails: the directory of the console holds a file
  \<^verbatim>\<open>.cn\<close>, which the first copy brings into the working directory; the logo is no
  directory, so the run reports that its copy failed; \<open>createCNFile\<close> was not called, and
  \<^verbatim>\<open>.cn\<close> is there, which was not there before.
\<close>

theorem marker_copied_before_copy_error:
  "lookup tree_cn_inside [''.cn''] = None
   \<and> map_option reports_copy_error (main 64 answer_1 tree_cn_inside) = Some True
   \<and> map_option called (main 64 answer_1 tree_cn_inside)
       = Some [CopyDirectory [''consoles'', ''mymini''] [],
               CopyDirectory [''consoles'', ''logo'', ''480P''] []]
   \<and> map_option (\<lambda>r. lookup (tree r) [''.cn'']) (main 64 answer_1 tree_cn_inside)
       = Some (Some (File ''x''))"
  by code_simp

end
